theory Spec2Isabelle
  imports Main "HOL-Library.Word"
begin

section \<open>Data model\<close>

type_synonym u8 = "8 word"

text \<open>A \<open>cv::Vec3b\<close>: three bytes, read in the source as \<open>p[0]\<close>, \<open>p[1]\<close>, \<open>p[2]\<close>
  (blue, green, red of a BGR image).\<close>

datatype Vec3b = Vec3b (ch0: u8) (ch1: u8) (ch2: u8)

text \<open>A \<open>cv::Mat\<close> of type \<open>CV_8UC3\<close>: the two dimensions (C \<open>int\<close>s) and the pixel
  storage, one list per row.\<close>

record Mat =
  cols :: int
  rows :: int
  data :: "Vec3b list list"

definition INT_MAX :: int where
  "INT_MAX = 2147483647"

definition INT_MIN :: int where
  "INT_MIN = - 2147483648"

text \<open>A two-dimensional matrix whose storage has the size its header announces.\<close>

definition wf_Mat :: "Mat \<Rightarrow> bool" where
  "wf_Mat m \<longleftrightarrow>
     0 \<le> rows m \<and> rows m \<le> INT_MAX \<and> 0 \<le> cols m \<and> cols m \<le> INT_MAX \<and>
     length (data m) = nat (rows m) \<and>
     list_all (\<lambda>r. length r = nat (cols m)) (data m)"

text \<open>What the C++ leaves undefined or answers with an exception is a value here:
  overflow of a signed \<open>int\<close> product, a vector size that is negative once converted,
  a pixel read outside the matrix, a write outside the vector.\<close>

datatype error = SignedOverflow | LengthError | ReadOutOfBounds | WriteOutOfBounds

definition then_do :: "error + 'a \<Rightarrow> ('a \<Rightarrow> error + 'b) \<Rightarrow> error + 'b" where
  "then_do r f = (case r of Inl e \<Rightarrow> Inl e | Inr v \<Rightarrow> f v)"

text \<open>\<open>a * b\<close> on \<open>int\<close>.\<close>

definition int_mul :: "int \<Rightarrow> int \<Rightarrow> error + int" where
  "int_mul a b =
     (if INT_MIN \<le> a * b \<and> a * b \<le> INT_MAX then Inr (a * b) else Inl SignedOverflow)"

text \<open>\<open>bgr.at<cv::Vec3b>(y, x)\<close>: the pixel of row \<open>y\<close>, column \<open>x\<close>. The access is
  unchecked in the source; a read outside the matrix is the error \<open>ReadOutOfBounds\<close>.\<close>

definition Mat_at :: "Mat \<Rightarrow> int \<Rightarrow> int \<Rightarrow> error + Vec3b" where
  "Mat_at m y x =
     (if 0 \<le> y \<and> y < rows m \<and> 0 \<le> x \<and> x < cols m \<and>
         nat y < length (data m) \<and> nat x < length (data m ! nat y)
      then Inr (data m ! nat y ! nat x)
      else Inl ReadOutOfBounds)"

section \<open>Colour conversion\<close>

text \<open>The three lambdas of the loop body. Their parameters are \<open>int\<close>, the shift is an
  arithmetic right shift, \<open>static_cast<uint8_t>\<close> applies to the shifted value only, and
  the sum with the offset is an \<open>int\<close> again.\<close>

definition RGB2Y :: "int \<Rightarrow> int \<Rightarrow> int \<Rightarrow> int" where
  "RGB2Y r g b = uint (word_of_int (drop_bit 8 (66 * r + 129 * g + 25 * b + 128)) :: u8) + 16"

definition RGB2U :: "int \<Rightarrow> int \<Rightarrow> int \<Rightarrow> int" where
  "RGB2U r g b = uint (word_of_int (drop_bit 8 (- 38 * r - 74 * g + 112 * b + 128)) :: u8) + 128"

definition RGB2V :: "int \<Rightarrow> int \<Rightarrow> int \<Rightarrow> int" where
  "RGB2V r g b = uint (word_of_int (drop_bit 8 (112 * r - 94 * g - 18 * b + 128)) :: u8) + 128"

text \<open>\<open>uint8_t Y0 = RGB2Y(p0[2], p0[1], p0[0])\<close> and its five siblings: the channels are
  promoted to \<open>int\<close>, the \<open>int\<close> result is narrowed to a byte by the initialisation.\<close>

definition pixel_Y :: "Vec3b \<Rightarrow> u8" where
  "pixel_Y p = word_of_int (RGB2Y (uint (ch2 p)) (uint (ch1 p)) (uint (ch0 p)))"

definition pixel_U :: "Vec3b \<Rightarrow> u8" where
  "pixel_U p = word_of_int (RGB2U (uint (ch2 p)) (uint (ch1 p)) (uint (ch0 p)))"

definition pixel_V :: "Vec3b \<Rightarrow> u8" where
  "pixel_V p = word_of_int (RGB2V (uint (ch2 p)) (uint (ch1 p)) (uint (ch0 p)))"

section \<open>The encoder\<close>

text \<open>The variables the two loops change: the output vector and the write index. The
  field \<open>reads\<close> is a log, absent from the source, of the coordinates \<open>(y, x)\<close> handed to
  \<open>bgr.at\<close>, in the order of the reads.\<close>

record loop_state =
  buffer :: "u8 list"
  idx :: int
  reads :: "(int \<times> int) list"

text \<open>\<open>buffer[idx++] = v\<close>. \<open>std::vector::operator[]\<close> is unchecked; a write outside the
  vector is the error \<open>WriteOutOfBounds\<close>.\<close>

definition store :: "u8 \<Rightarrow> loop_state \<Rightarrow> error + loop_state" where
  "store v s =
     (if 0 \<le> idx s \<and> nat (idx s) < length (buffer s)
      then Inr (s\<lparr>buffer := (buffer s)[nat (idx s) := v], idx := idx s + 1\<rparr>)
      else Inl WriteOutOfBounds)"

text \<open>The body of the inner loop, lines 25 to 49. Both operands of \<open>(U0 + U1) / 2\<close> are
  promoted to \<open>int\<close> and the sum is not negative, so the truncating division of C++ is
  \<open>div\<close>.\<close>

definition pair_body :: "Mat \<Rightarrow> int \<Rightarrow> int \<Rightarrow> loop_state \<Rightarrow> error + loop_state" where
  "pair_body m y x s =
     then_do (Mat_at m y x) (\<lambda>p0.
     then_do (Mat_at m y (x + 1)) (\<lambda>p1.
       let s = s\<lparr>reads := reads s @ [(y, x), (y, x + 1)]\<rparr>;
           Y0 = pixel_Y p0;
           U0 = pixel_U p0;
           V0 = pixel_V p0;
           Y1 = pixel_Y p1;
           U1 = pixel_U p1;
           V1 = pixel_V p1;
           U = (word_of_int ((uint U0 + uint U1) div 2) :: u8);
           V = (word_of_int ((uint V0 + uint V1) div 2) :: u8)
       in then_do (store Y0 s) (\<lambda>s.
          then_do (store U s) (\<lambda>s.
          then_do (store Y1 s) (\<lambda>s.
          store V s)))))"

text \<open>\<open>for (int x = ...; x < W; x += 2)\<close>, entered with the current value of \<open>x\<close>.\<close>

function x_loop :: "Mat \<Rightarrow> int \<Rightarrow> int \<Rightarrow> int \<Rightarrow> loop_state \<Rightarrow> error + loop_state" where
  "x_loop m W y x s =
     (if x < W
      then (case pair_body m y x s of
              Inl e \<Rightarrow> Inl e
            | Inr s' \<Rightarrow> x_loop m W y (x + 2) s')
      else Inr s)"
  by pat_completeness auto
termination
  by (relation "measure (\<lambda>(m, W, y, x, s). nat (W - x))") auto

text \<open>\<open>for (int y = ...; y < H; ++y)\<close>, entered with the current value of \<open>y\<close>.\<close>

function y_loop :: "Mat \<Rightarrow> int \<Rightarrow> int \<Rightarrow> int \<Rightarrow> loop_state \<Rightarrow> error + loop_state" where
  "y_loop m W H y s =
     (if y < H
      then (case x_loop m W y 0 s of
              Inl e \<Rightarrow> Inl e
            | Inr s' \<Rightarrow> y_loop m W H (y + 1) s')
      else Inr s)"
  by pat_completeness auto
termination
  by (relation "measure (\<lambda>(m, W, H, y, s). nat (H - y))") auto

declare x_loop.simps [simp del]
declare y_loop.simps [simp del]

text \<open>The objects behind the three reference parameters of \<open>GetRawYUYVData\<close>.\<close>

record refs =
  bgr :: Mat
  out_w :: int
  out_h :: int

text \<open>\<open>GetRawYUYVData\<close>, lines 8 to 53, with the final state of the loops in place of
  the returned vector. \<open>W % 2 != 0\<close> holds for every odd \<open>W\<close>, negative ones too. The
  size \<open>W * H * 2\<close> is an \<open>int\<close> product, converted to \<open>size_t\<close> by the vector's
  constructor, which fills the vector with zeros.\<close>

definition GetRawYUYVData_run :: "refs \<Rightarrow> error + (loop_state \<times> refs)" where
  "GetRawYUYVData_run e =
     (let W = cols (bgr e);
          H = rows (bgr e);
          W = (if W mod 2 \<noteq> 0 then W - 1 else W);
          e = e\<lparr>out_w := W, out_h := H\<rparr>
      in then_do (int_mul W H) (\<lambda>wh.
         then_do (int_mul wh 2) (\<lambda>n.
           if n < 0 then Inl LengthError
           else then_do (y_loop (bgr e) W H 0 \<lparr>buffer = replicate (nat n) 0, idx = 0, reads = []\<rparr>)
                  (\<lambda>s. Inr (s, e)))))"

text \<open>The call as its caller sees it: the returned vector and the three objects.\<close>

definition GetRawYUYVData :: "refs \<Rightarrow> error + (u8 list \<times> refs)" where
  "GetRawYUYVData e = then_do (GetRawYUYVData_run e) (\<lambda>(s, e'). Inr (buffer s, e'))"

section \<open>Notions of the statements\<close>

text \<open>The byte stored in \<open>U\<close> by line 42 for the pixel pair \<open>p0\<close>, \<open>p1\<close>.\<close>

definition U_avg :: "Vec3b \<Rightarrow> Vec3b \<Rightarrow> u8" where
  "U_avg p0 p1 = word_of_int ((uint (pixel_U p0) + uint (pixel_U p1)) div 2)"

text \<open>The byte stored in \<open>V\<close> by line 43.\<close>

definition V_avg :: "Vec3b \<Rightarrow> Vec3b \<Rightarrow> u8" where
  "V_avg p0 p1 = word_of_int ((uint (pixel_V p0) + uint (pixel_V p1)) div 2)"

text \<open>The four bytes written for one pixel pair, in the order of the writes.\<close>

definition macropixel :: "Vec3b \<Rightarrow> Vec3b \<Rightarrow> u8 list" where
  "macropixel p0 p1 = [pixel_Y p0, U_avg p0 p1, pixel_Y p1, V_avg p0 p1]"

text \<open>The pixel of row \<open>y\<close> and column \<open>x\<close> in the storage of a matrix.\<close>

definition pixel :: "Mat \<Rightarrow> int \<Rightarrow> int \<Rightarrow> Vec3b" where
  "pixel m y x = data m ! nat y ! nat x"

text \<open>The macropixel of the pair that starts at column \<open>x\<close> of row \<open>y\<close>.\<close>

definition group_at :: "Mat \<Rightarrow> int \<Rightarrow> int \<Rightarrow> u8 list" where
  "group_at m y x = macropixel (pixel m y x) (pixel m y (x + 1))"

text \<open>The effective width, in the words of the specification: the width itself when it is
  even, one less otherwise.\<close>

definition EvenWidth :: "int \<Rightarrow> int" where
  "EvenWidth W = (if even W then W else W - 1)"

text \<open>The size of the output vector is representable as an \<open>int\<close>.\<close>

definition size_fits :: "Mat \<Rightarrow> bool" where
  "size_fits m \<longleftrightarrow> EvenWidth (cols m) * rows m * 2 \<le> INT_MAX"

text \<open>The conversion formulas in the words of the specification: the weighted sum plus 128,
  shifted right arithmetically by 8, narrowed to 8 bits modulo 256, then the offset, and the
  stored byte modulo 256 again.\<close>

definition spec_narrow8 :: "int \<Rightarrow> int" where
  "spec_narrow8 v = v mod 256"

definition spec_Y :: "int \<Rightarrow> int \<Rightarrow> int \<Rightarrow> int" where
  "spec_Y R G B = spec_narrow8 (spec_narrow8 ((66 * R + 129 * G + 25 * B + 128) div 2 ^ 8) + 16)"

definition spec_U :: "int \<Rightarrow> int \<Rightarrow> int \<Rightarrow> int" where
  "spec_U R G B = spec_narrow8 (spec_narrow8 ((- 38 * R - 74 * G + 112 * B + 128) div 2 ^ 8) + 128)"

definition spec_V :: "int \<Rightarrow> int \<Rightarrow> int \<Rightarrow> int" where
  "spec_V R G B = spec_narrow8 (spec_narrow8 ((112 * R - 94 * G - 18 * B + 128) div 2 ^ 8) + 128)"

text \<open>The \<open>g\<close>-th group of four bytes of a buffer.\<close>

definition nth_group :: "u8 list \<Rightarrow> nat \<Rightarrow> u8 list" where
  "nth_group buf g = take 4 (drop (4 * g) buf)"

text \<open>Every stored pixel of the image is \<open>c\<close>.\<close>

definition uniform :: "Mat \<Rightarrow> Vec3b \<Rightarrow> bool" where
  "uniform m c \<longleftrightarrow> list_all (list_all (\<lambda>p. p = c)) (data m)"

text \<open>What a call hands back apart from the image: the vector and the two output integers.\<close>

definition result_of :: "error + (u8 list \<times> refs) \<Rightarrow> error + (u8 list \<times> int \<times> int)" where
  "result_of r = (case r of Inl err \<Rightarrow> Inl err | Inr (buf, e') \<Rightarrow> Inr (buf, out_w e', out_h e'))"

text \<open>The image restricted to all columns but the last.\<close>

definition drop_last_column :: "Mat \<Rightarrow> Mat" where
  "drop_last_column m = m\<lparr>cols := cols m - 1, data := map butlast (data m)\<rparr>"

text \<open>Two images of the same size that agree on all columns but the last.\<close>

definition agree_but_last :: "Mat \<Rightarrow> Mat \<Rightarrow> bool" where
  "agree_but_last m1 m2 \<longleftrightarrow>
     cols m1 = cols m2 \<and> rows m1 = rows m2 \<and> map butlast (data m1) = map butlast (data m2)"

section \<open>Loop invariants\<close>

text \<open>What one run of the inner loop, entered at column \<open>x\<close>, establishes.\<close>

definition x_post :: "Mat \<Rightarrow> int \<Rightarrow> int \<Rightarrow> int \<Rightarrow> loop_state \<Rightarrow> loop_state \<Rightarrow> bool" where
  "x_post m W y x s s' \<longleftrightarrow>
     idx s' = idx s + 2 * (W - x) \<and>
     length (buffer s') = length (buffer s) \<and>
     (\<forall>j < nat (idx s). buffer s' ! j = buffer s ! j) \<and>
     (\<forall>x' k. x \<le> x' \<longrightarrow> x' < W \<longrightarrow> even x' \<longrightarrow> k < 4 \<longrightarrow>
        buffer s' ! (nat (idx s + 2 * (x' - x)) + k) = group_at m y x' ! k) \<and>
     set (reads s') \<subseteq> set (reads s) \<union> {y} \<times> {0 ..< W}"

text \<open>What the outer loop, entered at row \<open>y\<close>, establishes.\<close>

definition y_post :: "Mat \<Rightarrow> int \<Rightarrow> int \<Rightarrow> int \<Rightarrow> loop_state \<Rightarrow> loop_state \<Rightarrow> bool" where
  "y_post m W H y s s' \<longleftrightarrow>
     idx s' = idx s + 2 * (W * (H - y)) \<and>
     length (buffer s') = length (buffer s) \<and>
     (\<forall>j < nat (idx s). buffer s' ! j = buffer s ! j) \<and>
     (\<forall>y' x' k. y \<le> y' \<longrightarrow> y' < H \<longrightarrow> 0 \<le> x' \<longrightarrow> x' < W \<longrightarrow> even x' \<longrightarrow> k < 4 \<longrightarrow>
        buffer s' ! (nat (idx s + 2 * (W * (y' - y) + x')) + k) = group_at m y' x' ! k) \<and>
     set (reads s') \<subseteq> set (reads s) \<union> {y ..< H} \<times> {0 ..< W}"

text \<open>What the whole run establishes about the final state of the loops.\<close>

definition run_post :: "Mat \<Rightarrow> loop_state \<Rightarrow> bool" where
  "run_post m s \<longleftrightarrow>
     length (buffer s) = nat (EvenWidth (cols m) * rows m * 2) \<and>
     (\<forall>y x k. 0 \<le> y \<longrightarrow> y < rows m \<longrightarrow> 0 \<le> x \<longrightarrow> x < EvenWidth (cols m) \<longrightarrow> even x \<longrightarrow> k < 4 \<longrightarrow>
        buffer s ! (nat ((y * EvenWidth (cols m) + x) * 2) + k) = group_at m y x ! k) \<and>
     set (reads s) \<subseteq> {0 ..< rows m} \<times> {0 ..< EvenWidth (cols m)}"

section \<open>Concrete images\<close>

text \<open>Images for the concrete instances: three columns and two rows, the same with another
  last column, five columns and two rows, a single column, a 4 by 2 image of one colour, and
  three black images whose output size is \<open>2 ^ 31\<close> bytes.\<close>

definition example_image :: Mat where
  "example_image =
     \<lparr>cols = 3, rows = 2,
      data = [[Vec3b 0 0 255, Vec3b 255 0 0, Vec3b 1 2 3],
              [Vec3b 10 20 30, Vec3b 255 255 255, Vec3b 7 7 7]]\<rparr>"

definition example_image' :: Mat where
  "example_image' =
     \<lparr>cols = 3, rows = 2,
      data = [[Vec3b 0 0 255, Vec3b 255 0 0, Vec3b 200 100 50],
              [Vec3b 10 20 30, Vec3b 255 255 255, Vec3b 9 8 7]]\<rparr>"

definition wide_image :: Mat where
  "wide_image =
     \<lparr>cols = 5, rows = 2,
      data = [[Vec3b 0 0 255, Vec3b 255 0 0, Vec3b 0 255 0, Vec3b 255 255 255, Vec3b 9 9 9],
              [Vec3b 10 20 30, Vec3b 40 50 60, Vec3b 70 80 90, Vec3b 100 110 120, Vec3b 1 2 3]]\<rparr>"

definition column_image :: Mat where
  "column_image = \<lparr>cols = 1, rows = 3, data = [[Vec3b 1 2 3], [Vec3b 4 5 6], [Vec3b 7 8 9]]\<rparr>"

definition huge_image :: Mat where
  "huge_image =
     \<lparr>cols = 32768, rows = 32768, data = replicate 32768 (replicate 32768 (Vec3b 0 0 0))\<rparr>"

definition huge_odd_image :: Mat where
  "huge_odd_image =
     \<lparr>cols = 32769, rows = 32768, data = replicate 32768 (replicate 32769 (Vec3b 0 0 0))\<rparr>"

definition huge_wide_image :: Mat where
  "huge_wide_image =
     \<lparr>cols = 65536, rows = 16384, data = replicate 16384 (replicate 65536 (Vec3b 0 0 0))\<rparr>"

definition flat_image :: "Vec3b \<Rightarrow> Mat" where
  "flat_image c = \<lparr>cols = 4, rows = 2, data = [[c, c, c, c], [c, c, c, c]]\<rparr>"

section \<open>Basic facts\<close>

lemma then_do_Inr [simp]: "then_do (Inr v) f = f v"
  by (simp add: then_do_def)

lemma then_do_Inl [simp]: "then_do (Inl e) f = Inl e"
  by (simp add: then_do_def)

lemma Mat_at_wf:
  assumes "wf_Mat m" "0 \<le> y" "y < rows m" "0 \<le> x" "x < cols m"
  shows "Mat_at m y x = Inr (data m ! nat y ! nat x)"
proof -
  have len: "length (data m) = nat (rows m)"
    and row: "\<forall>i < length (data m). length (data m ! i) = nat (cols m)"
    using assms(1) by (simp_all add: wf_Mat_def list_all_length)
  have "nat y < length (data m)" using assms(2,3) len by simp
  moreover from this row have "nat x < length (data m ! nat y)" using assms(4,5) by simp
  ultimately show ?thesis using assms(2-5) by (simp add: Mat_at_def)
qed

lemma nat_shift:
  "nat (1 + int i) = Suc i" "nat (2 + int i) = Suc (Suc i)" "nat (3 + int i) = Suc (Suc (Suc i))"
  "nat (int i + 1) = Suc i" "nat (int i + 2) = Suc (Suc i)" "nat (int i + 3) = Suc (Suc (Suc i))"
  by linarith+

lemma pair_body_explicit:
  assumes p0: "Mat_at m y x = Inr p0" and p1: "Mat_at m y (x + 1) = Inr p1"
    and i: "idx s = int i" "i + 4 \<le> length (buffer s)"
  shows "pair_body m y x s =
           Inr \<lparr>buffer = (buffer s)[i := pixel_Y p0, Suc i := U_avg p0 p1,
                    Suc (Suc i) := pixel_Y p1, Suc (Suc (Suc i)) := V_avg p0 p1],
                idx = int i + 4,
                reads = reads s @ [(y, x), (y, x + 1)]\<rparr>"
  using i
  by (simp add: pair_body_def p0 p1 Let_def store_def U_avg_def V_avg_def nat_shift)

lemma all_less_4: "(\<forall>k<4::nat. P k) \<longleftrightarrow> P 0 \<and> P (Suc 0) \<and> P (Suc (Suc 0)) \<and> P (Suc (Suc (Suc 0)))"
proof -
  have "\<And>k::nat. k < 4 \<longleftrightarrow> k = 0 \<or> k = Suc 0 \<or> k = Suc (Suc 0) \<or> k = Suc (Suc (Suc 0))"
    by presburger
  then show ?thesis by auto
qed

lemma pair_body_Inr:
  assumes p0: "Mat_at m y x = Inr p0" and p1: "Mat_at m y (x + 1) = Inr p1"
    and i: "0 \<le> idx s" "idx s + 4 \<le> int (length (buffer s))"
  shows "\<exists>s'. pair_body m y x s = Inr s' \<and> idx s' = idx s + 4 \<and>
           length (buffer s') = length (buffer s) \<and>
           (\<forall>j < nat (idx s). buffer s' ! j = buffer s ! j) \<and>
           (\<forall>k < 4. buffer s' ! (nat (idx s) + k) = macropixel p0 p1 ! k) \<and>
           reads s' = reads s @ [(y, x), (y, x + 1)]"
proof -
  obtain i where i': "idx s = int i" using i(1) by (metis nat_0_le)
  have l: "i + 4 \<le> length (buffer s)" using i(2) i' by linarith
  show ?thesis
    unfolding pair_body_explicit [OF p0 p1 i' l] using l
    by (simp add: i' all_less_4 macropixel_def nth_list_update)
qed

lemma x_loop_inv:
  assumes "wf_Mat m" "0 \<le> y" "y < rows m" "even W" "W \<le> cols m"
    "0 \<le> x" "even x" "x \<le> W" "0 \<le> idx s" "idx s + 2 * (W - x) \<le> int (length (buffer s))"
  shows "\<exists>s'. x_loop m W y x s = Inr s' \<and> x_post m W y x s s'"
  using assms
proof (induction m W y x s rule: x_loop.induct)
  case (1 m W y x s)
  show ?case
  proof (cases "x < W")
    case False
    with "1.prems" have "x = W" by simp
    then have "x_loop m W y x s = Inr s" "x_post m W y x s s"
      by (auto simp add: x_loop.simps x_post_def)
    then show ?thesis by simp
  next
    case True
    with "1.prems" have x2: "x + 2 \<le> W" by presburger
    have p0: "Mat_at m y x = Inr (pixel m y x)"
      using "1.prems" x2 by (simp add: Mat_at_wf pixel_def)
    have p1: "Mat_at m y (x + 1) = Inr (pixel m y (x + 1))"
      using "1.prems" x2 by (simp add: Mat_at_wf pixel_def)
    have room: "idx s + 4 \<le> int (length (buffer s))"
      using "1.prems"(10) x2 by arith
    from pair_body_Inr [OF p0 p1 \<open>0 \<le> idx s\<close> room]
    obtain s1 where s1: "pair_body m y x s = Inr s1" "idx s1 = idx s + 4"
      "length (buffer s1) = length (buffer s)"
      "\<forall>j < nat (idx s). buffer s1 ! j = buffer s ! j"
      "\<forall>k < 4. buffer s1 ! (nat (idx s) + k) = group_at m y x ! k"
      "reads s1 = reads s @ [(y, x), (y, x + 1)]"
      unfolding group_at_def by (elim exE conjE)
    have "0 \<le> idx s1" "idx s1 + 2 * (W - (x + 2)) \<le> int (length (buffer s1))"
      using "1.prems"(9,10) s1(2,3) by simp_all
    with "1.prems"(1-7) x2
    have "\<exists>s'. x_loop m W y (x + 2) s1 = Inr s' \<and> x_post m W y (x + 2) s1 s'"
      by (intro "1.IH" [OF True s1(1)]) simp_all
    then obtain s' where s': "x_loop m W y (x + 2) s1 = Inr s'" and post: "x_post m W y (x + 2) s1 s'"
      by (elim exE conjE)
    have q: "idx s' = idx s1 + 2 * (W - (x + 2))"
      "length (buffer s') = length (buffer s1)"
      "\<And>j. j < nat (idx s1) \<Longrightarrow> buffer s' ! j = buffer s1 ! j"
      "\<And>x' k. x + 2 \<le> x' \<Longrightarrow> x' < W \<Longrightarrow> even x' \<Longrightarrow> k < 4 \<Longrightarrow>
         buffer s' ! (nat (idx s1 + 2 * (x' - (x + 2))) + k) = group_at m y x' ! k"
      "set (reads s') \<subseteq> set (reads s1) \<union> {y} \<times> {0 ..< W}"
      using post by (simp_all add: x_post_def)
    have run: "x_loop m W y x s = Inr s'"
      using True s1(1) s' by (subst x_loop.simps) simp
    have i4: "nat (idx s1) = nat (idx s) + 4"
      using s1(2) \<open>0 \<le> idx s\<close> by simp
    have keep: "buffer s' ! j = buffer s ! j" if "j < nat (idx s)" for j
      using that q(3) [of j] s1(4) i4 by simp
    have groups: "buffer s' ! (nat (idx s + 2 * (x' - x)) + k) = group_at m y x' ! k"
      if x': "x \<le> x'" "x' < W" "even x'" and k: "k < 4" for x' k
    proof (cases "x' = x")
      case True
      have "buffer s' ! (nat (idx s) + k) = buffer s1 ! (nat (idx s) + k)"
        using q(3) [of "nat (idx s) + k"] i4 k by simp
      with s1(5) True k show ?thesis by simp
    next
      case False
      with x' \<open>even x\<close> have far: "x + 2 \<le> x'" by presburger
      have eq: "idx s1 + 2 * (x' - (x + 2)) = idx s + 2 * (x' - x)"
        using s1(2) by simp
      from q(4) [OF far x'(2,3) k] show ?thesis unfolding eq .
    qed
    have log: "set (reads s') \<subseteq> set (reads s) \<union> {y} \<times> {0 ..< W}"
      using q(5) s1(6) \<open>0 \<le> x\<close> x2 by auto
    have "idx s' = idx s + 2 * (W - x)" using q(1) s1(2) by simp
    moreover have "length (buffer s') = length (buffer s)" using q(2) s1(3) by simp
    ultimately have "x_post m W y x s s'"
      unfolding x_post_def using keep groups log by simp
    with run show ?thesis by simp
  qed
qed

lemma y_loop_inv:
  assumes "wf_Mat m" "even W" "0 \<le> W" "W \<le> cols m" "0 \<le> y" "y \<le> H" "H \<le> rows m"
    "0 \<le> idx s" "idx s + 2 * (W * (H - y)) \<le> int (length (buffer s))"
  shows "\<exists>s'. y_loop m W H y s = Inr s' \<and> y_post m W H y s s'"
  using assms
proof (induction m W H y s rule: y_loop.induct)
  case (1 m W H y s)
  show ?case
  proof (cases "y < H")
    case False
    with "1.prems" have "y = H" by simp
    then have "y_loop m W H y s = Inr s" "y_post m W H y s s"
      by (auto simp add: y_loop.simps y_post_def)
    then show ?thesis by simp
  next
    case True
    have "W * 1 \<le> W * (H - y)"
      using True \<open>0 \<le> W\<close> by (intro mult_left_mono) simp_all
    then have row: "idx s + 2 * (W - 0) \<le> int (length (buffer s))"
      using "1.prems"(9) by simp
    have "\<exists>s1. x_loop m W y 0 s = Inr s1 \<and> x_post m W y 0 s s1"
      using "1.prems"(1,2,3,4,5,7,8) True row by (intro x_loop_inv) simp_all
    then obtain s1 where s1: "x_loop m W y 0 s = Inr s1" and post1: "x_post m W y 0 s s1"
      by (elim exE conjE)
    have r: "idx s1 = idx s + 2 * W"
      "length (buffer s1) = length (buffer s)"
      "\<And>j. j < nat (idx s) \<Longrightarrow> buffer s1 ! j = buffer s ! j"
      "\<And>x' k. 0 \<le> x' \<Longrightarrow> x' < W \<Longrightarrow> even x' \<Longrightarrow> k < 4 \<Longrightarrow>
         buffer s1 ! (nat (idx s + 2 * x') + k) = group_at m y x' ! k"
      "set (reads s1) \<subseteq> set (reads s) \<union> {y} \<times> {0 ..< W}"
      using post1 by (simp_all add: x_post_def)
    have rest: "idx s1 + 2 * (W * (H - (y + 1))) = idx s + 2 * (W * (H - y))"
      using r(1) by (simp add: algebra_simps)
    have "0 \<le> idx s1" using r(1) \<open>0 \<le> idx s\<close> \<open>0 \<le> W\<close> by simp
    moreover have "idx s1 + 2 * (W * (H - (y + 1))) \<le> int (length (buffer s1))"
      unfolding rest r(2) using "1.prems"(9) .
    ultimately have "\<exists>s'. y_loop m W H (y + 1) s1 = Inr s' \<and> y_post m W H (y + 1) s1 s'"
      using "1.prems"(1,2,3,4,5,7) True
      by (intro "1.IH" [OF True s1]) simp_all
    then obtain s' where s': "y_loop m W H (y + 1) s1 = Inr s'"
      and post: "y_post m W H (y + 1) s1 s'"
      by (elim exE conjE)
    have q: "idx s' = idx s1 + 2 * (W * (H - (y + 1)))"
      "length (buffer s') = length (buffer s1)"
      "\<And>j. j < nat (idx s1) \<Longrightarrow> buffer s' ! j = buffer s1 ! j"
      "\<And>y' x' k. y + 1 \<le> y' \<Longrightarrow> y' < H \<Longrightarrow> 0 \<le> x' \<Longrightarrow> x' < W \<Longrightarrow> even x' \<Longrightarrow> k < 4 \<Longrightarrow>
         buffer s' ! (nat (idx s1 + 2 * (W * (y' - (y + 1)) + x')) + k) = group_at m y' x' ! k"
      "set (reads s') \<subseteq> set (reads s1) \<union> {y + 1 ..< H} \<times> {0 ..< W}"
      using post by (simp_all add: y_post_def)
    have run: "y_loop m W H y s = Inr s'"
      using True s1 s' by (subst y_loop.simps) simp
    have keep: "buffer s' ! j = buffer s ! j" if "j < nat (idx s)" for j
    proof -
      have "j < nat (idx s1)" using that r(1) \<open>0 \<le> W\<close> by simp
      then show ?thesis using q(3) [of j] r(3) [OF that] by simp
    qed
    have groups: "buffer s' ! (nat (idx s + 2 * (W * (y' - y) + x')) + k) = group_at m y' x' ! k"
      if y': "y \<le> y'" "y' < H" and x': "0 \<le> x'" "x' < W" "even x'" and k: "k < 4" for y' x' k
    proof (cases "y' = y")
      case True
      from x' \<open>even W\<close> have "x' + 2 \<le> W" by presburger
      then have "nat (idx s + 2 * x') + k < nat (idx s1)"
        using r(1) k \<open>0 \<le> idx s\<close> x'(1) by simp
      then have "buffer s' ! (nat (idx s + 2 * x') + k) = buffer s1 ! (nat (idx s + 2 * x') + k)"
        by (rule q(3))
      with r(4) [OF x' k] True show ?thesis by simp
    next
      case False
      with y' have far: "y + 1 \<le> y'" by simp
      have eq: "idx s1 + 2 * (W * (y' - (y + 1)) + x') = idx s + 2 * (W * (y' - y) + x')"
        using r(1) by (simp add: algebra_simps)
      from q(4) [OF far y'(2) x' k] show ?thesis unfolding eq .
    qed
    have "{y} \<times> {0 ..< W} \<union> {y + 1 ..< H} \<times> {0 ..< W} \<subseteq> {y ..< H} \<times> {0 ..< W}"
      using True by auto
    with q(5) r(5) have log: "set (reads s') \<subseteq> set (reads s) \<union> {y ..< H} \<times> {0 ..< W}"
      by blast
    have "idx s' = idx s + 2 * (W * (H - y))" using q(1) rest by simp
    moreover have "length (buffer s') = length (buffer s)" using q(2) r(2) by simp
    ultimately have "y_post m W H y s s'"
      unfolding y_post_def using keep groups log by simp
    with run show ?thesis by simp
  qed
qed

lemma uint_u8: "uint (word_of_int k :: u8) = k mod 256"
  by (simp add: uint_word_of_int take_bit_eq_mod)

lemma EvenWidth_props:
  assumes "0 \<le> W"
  shows "even (EvenWidth W)" "0 \<le> EvenWidth W" "EvenWidth W \<le> W"
  using assms by (auto simp add: EvenWidth_def elim: oddE)

lemma run_unfold:
  "GetRawYUYVData_run e =
     then_do (int_mul (EvenWidth (cols (bgr e))) (rows (bgr e))) (\<lambda>wh.
     then_do (int_mul wh 2) (\<lambda>n.
       if n < 0 then Inl LengthError
       else then_do (y_loop (bgr e) (EvenWidth (cols (bgr e))) (rows (bgr e)) 0
                      \<lparr>buffer = replicate (nat n) 0, idx = 0, reads = []\<rparr>)
              (\<lambda>s. Inr (s, e\<lparr>out_w := EvenWidth (cols (bgr e)), out_h := rows (bgr e)\<rparr>))))"
proof -
  have "(if cols (bgr e) mod 2 \<noteq> 0 then cols (bgr e) - 1 else cols (bgr e)) =
        EvenWidth (cols (bgr e))"
    unfolding EvenWidth_def by presburger
  then show ?thesis
    by (simp add: GetRawYUYVData_run_def Let_def cong: if_cong)
qed

lemma run_overflow:
  assumes "wf_Mat (bgr e)" "\<not> size_fits (bgr e)"
  shows "GetRawYUYVData_run e = Inl SignedOverflow"
proof -
  let ?W = "EvenWidth (cols (bgr e))" and ?H = "rows (bgr e)"
  have nn: "0 \<le> ?W" "0 \<le> ?H"
    using assms(1) by (simp_all add: wf_Mat_def EvenWidth_props)
  then have "0 \<le> ?W * ?H" by simp
  with assms(2) have "INT_MAX < ?W * ?H \<or> (?W * ?H \<le> INT_MAX \<and> INT_MAX < ?W * ?H * 2)"
    by (auto simp add: size_fits_def)
  then show ?thesis
    unfolding run_unfold by (auto simp add: int_mul_def)
qed

lemma run_ok:
  assumes wf: "wf_Mat (bgr e)" and fits: "size_fits (bgr e)"
  shows "\<exists>s. GetRawYUYVData_run e =
               Inr (s, e\<lparr>out_w := EvenWidth (cols (bgr e)), out_h := rows (bgr e)\<rparr>) \<and>
             run_post (bgr e) s"
proof -
  let ?m = "bgr e"
  let ?W = "EvenWidth (cols ?m)" and ?H = "rows ?m"
  let ?s0 = "\<lparr>buffer = replicate (nat (?W * ?H * 2)) 0, idx = 0, reads = []\<rparr>"
  have W: "even ?W" "0 \<le> ?W" "?W \<le> cols ?m" and H: "0 \<le> ?H"
    using wf by (simp_all add: wf_Mat_def EvenWidth_props)
  have nn: "0 \<le> ?W * ?H" using W(2) H by simp
  have le: "?W * ?H * 2 \<le> INT_MAX" using fits by (simp add: size_fits_def)
  have lo: "INT_MIN \<le> ?W * ?H" "INT_MIN \<le> ?W * ?H * 2"
    using nn unfolding INT_MIN_def by arith+
  have le1: "?W * ?H \<le> INT_MAX" using nn le by arith
  have m1: "int_mul ?W ?H = Inr (?W * ?H)"
    unfolding int_mul_def using lo le1 by simp
  have m2: "int_mul (?W * ?H) 2 = Inr (?W * ?H * 2)"
    unfolding int_mul_def using lo le by simp
  have "\<exists>s. y_loop ?m ?W ?H 0 ?s0 = Inr s \<and> y_post ?m ?W ?H 0 ?s0 s"
    using wf W H nn by (intro y_loop_inv) (simp_all add: mult.commute)
  then obtain s where s: "y_loop ?m ?W ?H 0 ?s0 = Inr s" and post: "y_post ?m ?W ?H 0 ?s0 s"
    by (elim exE conjE)
  have run: "GetRawYUYVData_run e = Inr (s, e\<lparr>out_w := ?W, out_h := ?H\<rparr>)"
  proof -
    have "\<not> ?W * ?H * 2 < 0" using nn by arith
    then show ?thesis unfolding run_unfold m1 m2 then_do_Inr using s by simp
  qed
  have q: "length (buffer s) = nat (?W * ?H * 2)"
    "\<And>y x k. 0 \<le> y \<Longrightarrow> y < ?H \<Longrightarrow> 0 \<le> x \<Longrightarrow> x < ?W \<Longrightarrow> even x \<Longrightarrow> k < 4 \<Longrightarrow>
         buffer s ! (nat (2 * (?W * y + x)) + k) = group_at ?m y x ! k"
    "set (reads s) \<subseteq> {0 ..< ?H} \<times> {0 ..< ?W}"
    using post by (simp_all add: y_post_def)
  have "run_post ?m s"
    unfolding run_post_def using q by (simp add: mult.commute)
  with run show ?thesis by simp
qed

lemma take4_drop:
  assumes "k + 4 \<le> length buf" "length q = 4" "\<And>i. i < 4 \<Longrightarrow> buf ! (k + i) = q ! i"
  shows "take 4 (drop k buf) = q"
proof (rule nth_equalityI)
  show "length (take 4 (drop k buf)) = length q" using assms(1,2) by simp
next
  fix i assume "i < length (take 4 (drop k buf))"
  then have "i < 4" by simp
  then show "take 4 (drop k buf) ! i = q ! i"
    using assms(1) assms(3) [of i] by simp
qed

lemma run_Inr:
  assumes "wf_Mat (bgr e)" "GetRawYUYVData_run e = Inr (s, e')"
  shows "size_fits (bgr e)" "run_post (bgr e) s"
    "e' = e\<lparr>out_w := EvenWidth (cols (bgr e)), out_h := rows (bgr e)\<rparr>"
proof -
  show fits: "size_fits (bgr e)"
    using run_overflow [OF assms(1)] assms(2) by fastforce
  from run_ok [OF assms(1) fits] assms(2)
  show "run_post (bgr e) s" "e' = e\<lparr>out_w := EvenWidth (cols (bgr e)), out_h := rows (bgr e)\<rparr>"
    by auto
qed

lemma GetRawYUYVData_Inr:
  assumes "GetRawYUYVData e = Inr (buf, e')"
  obtains s where "GetRawYUYVData_run e = Inr (s, e')" "buf = buffer s"
  using assms unfolding GetRawYUYVData_def then_do_def
  by (auto split: sum.splits)

lemma GetRawYUYVData_ok:
  assumes "wf_Mat (bgr e)" "size_fits (bgr e)"
  obtains s where "run_post (bgr e) s"
    "GetRawYUYVData e =
       Inr (buffer s, e\<lparr>out_w := EvenWidth (cols (bgr e)), out_h := rows (bgr e)\<rparr>)"
proof -
  from run_ok [OF assms] obtain s where
    "GetRawYUYVData_run e = Inr (s, e\<lparr>out_w := EvenWidth (cols (bgr e)), out_h := rows (bgr e)\<rparr>)"
    "run_post (bgr e) s"
    by (elim exE conjE)
  then show ?thesis using that by (simp add: GetRawYUYVData_def)
qed

lemma length_group_at: "length (group_at m y x) = 4"
  by (simp add: group_at_def macropixel_def)

lemma run_post_layout:
  assumes wf: "wf_Mat m" and post: "run_post m s"
    and y: "0 \<le> y" "y < rows m" and x: "0 \<le> x" "x < EvenWidth (cols m)" "even x"
  shows "nat ((y * EvenWidth (cols m) + x) * 2) + 4 \<le> length (buffer s)"
    and "take 4 (drop (nat ((y * EvenWidth (cols m) + x) * 2)) (buffer s)) = group_at m y x"
proof -
  let ?W = "EvenWidth (cols m)" and ?H = "rows m"
  have W: "even ?W" "0 \<le> ?W" using wf by (simp_all add: wf_Mat_def EvenWidth_props)
  have len: "length (buffer s) = nat (?W * ?H * 2)"
    and grp: "\<And>k. k < 4 \<Longrightarrow> buffer s ! (nat ((y * ?W + x) * 2) + k) = group_at m y x ! k"
    using post y x by (simp_all add: run_post_def)
  from x W(1) have x2: "x + 2 \<le> ?W" by presburger
  have "(y + 1) * ?W \<le> ?H * ?W"
    using y(2) W(2) by (intro mult_right_mono) simp_all
  then have "y * ?W + ?W \<le> ?W * ?H" by (simp add: algebra_simps)
  with x2 have le: "(y * ?W + x) * 2 + 4 \<le> ?W * ?H * 2" by arith
  have "0 \<le> y * ?W" using y(1) W(2) by simp
  then have "0 \<le> (y * ?W + x) * 2" using x(1) by simp
  then have "nat ((y * ?W + x) * 2) + 4 = nat ((y * ?W + x) * 2 + 4)" by simp
  also have "\<dots> \<le> nat (?W * ?H * 2)" using le by (rule nat_mono)
  finally show fit: "nat ((y * ?W + x) * 2) + 4 \<le> length (buffer s)"
    unfolding len .
  show "take 4 (drop (nat ((y * ?W + x) * 2)) (buffer s)) = group_at m y x"
    using fit length_group_at grp by (rule take4_drop)
qed

lemma group_coords:
  assumes "even W" "0 < W" "4 * int g + 4 \<le> W * H * 2"
  obtains y x where "0 \<le> y" "y < H" "0 \<le> x" "x < W" "even x" "(y * W + x) * 2 = 4 * int g"
proof -
  let ?t = "2 * int g"
  let ?y = "?t div W" and ?x = "?t mod W"
  have t: "?y * W + ?x = ?t" by simp
  have x: "0 \<le> ?x" "?x < W" using assms(2) by simp_all
  have "even ?x" using assms(1) by (simp add: dvd_mod)
  moreover have "0 \<le> ?y" using assms(2) by (simp add: pos_imp_zdiv_nonneg_iff)
  moreover have "?y < H"
  proof (rule ccontr)
    assume "\<not> ?y < H"
    then have "H * W \<le> ?y * W" using assms(2) by (intro mult_right_mono) simp_all
    also have "\<dots> \<le> ?t" using t x(1) by arith
    finally show False using assms(3) by (simp add: mult.commute)
  qed
  moreover have "(?y * W + ?x) * 2 = 4 * int g" unfolding t by simp
  ultimately show ?thesis using x that by blast
qed

lemma uniform_pixel:
  assumes "wf_Mat m" "uniform m c" "0 \<le> y" "y < rows m" "0 \<le> x" "x < cols m"
  shows "pixel m y x = c"
proof -
  have len: "length (data m) = nat (rows m)"
    and row: "\<forall>i < length (data m). length (data m ! i) = nat (cols m)"
    using assms(1) by (simp_all add: wf_Mat_def list_all_length)
  have yy: "nat y < length (data m)" using assms(3,4) len by simp
  with row have "nat x < length (data m ! nat y)" using assms(5,6) by simp
  with yy assms(2) show ?thesis
    by (simp add: uniform_def pixel_def list_all_length)
qed

lemma uint_avg:
  "uint (word_of_int ((uint (a::u8) + uint (b::u8)) div 2) :: u8) = (uint a + uint b) div 2"
proof -
  have "uint a < 256" "uint b < 256" "0 \<le> uint a" "0 \<le> uint b"
    using uint_bounded [of a] uint_bounded [of b] by simp_all
  then have "0 \<le> (uint a + uint b) div 2" "(uint a + uint b) div 2 < 256" by arith+
  then show ?thesis by (simp add: uint_u8)
qed

lemma avg_same: "(word_of_int ((uint (a::u8) + uint a) div 2) :: u8) = a"
proof -
  have "(uint a + uint a) div 2 = uint a" by simp
  then show ?thesis by simp
qed

lemma uniform_groups:
  assumes wf: "wf_Mat m" and post: "run_post m s" and u: "uniform m c"
    and g: "g < length (buffer s) div 4"
  shows "nth_group (buffer s) g = [pixel_Y c, pixel_U c, pixel_Y c, pixel_V c]"
proof -
  let ?W = "EvenWidth (cols m)" and ?H = "rows m"
  have W: "even ?W" "0 \<le> ?W" "?W \<le> cols m" using wf by (simp_all add: wf_Mat_def EvenWidth_props)
  have len: "length (buffer s) = nat (?W * ?H * 2)"
    using post by (simp add: run_post_def)
  from g have "4 * g + 4 \<le> length (buffer s)" by arith
  then have room: "4 * int g + 4 \<le> ?W * ?H * 2" unfolding len by arith
  have "0 < ?W"
  proof (rule ccontr)
    assume "\<not> 0 < ?W"
    with W(2) have "?W = 0" by simp
    with room show False by simp
  qed
  from group_coords [OF W(1) this room]
  obtain y x where c: "0 \<le> y" "y < ?H" "0 \<le> x" "x < ?W" "even x" "(y * ?W + x) * 2 = 4 * int g"
    by blast
  from c(4,5) W(1) have "x + 2 \<le> ?W" by presburger
  then have p: "pixel m y x = c" "pixel m y (x + 1) = c"
    using c W(3) by (simp_all add: uniform_pixel [OF wf u])
  have "nat ((y * ?W + x) * 2) = 4 * g" unfolding c(6) by simp
  with run_post_layout(2) [OF wf post c(1-5)]
  have "nth_group (buffer s) g = group_at m y x" by (simp add: nth_group_def)
  then show ?thesis
    by (simp add: group_at_def p macropixel_def U_avg_def V_avg_def avg_same)
qed

lemma x_loop_agree:
  assumes "\<And>x'. 0 \<le> x' \<Longrightarrow> x' < W \<Longrightarrow> Mat_at m1 y x' = Mat_at m2 y x'"
    "even W" "0 \<le> x" "even x"
  shows "x_loop m1 W y x s = x_loop m2 W y x s"
  using assms
proof (induction m1 W y x s rule: x_loop.induct)
  case (1 m1 W y x s)
  show ?case
  proof (cases "x < W")
    case False
    then show ?thesis by (simp add: x_loop.simps)
  next
    case True
    with "1.prems"(2,4) have "x + 1 < W" by presburger
    with "1.prems"(1,3) True have pb: "pair_body m2 y x s = pair_body m1 y x s"
      by (simp add: pair_body_def)
    show ?thesis
    proof (cases "pair_body m1 y x s")
      case (Inl err)
      have "x_loop m1 W y x s = Inl err" using True Inl by (subst x_loop.simps) simp
      moreover have "x_loop m2 W y x s = Inl err" using True Inl pb by (subst x_loop.simps) simp
      ultimately show ?thesis by simp
    next
      case (Inr s')
      have "x_loop m1 W y x s = x_loop m1 W y (x + 2) s'"
        using True Inr by (subst x_loop.simps) simp
      moreover have "x_loop m2 W y x s = x_loop m2 W y (x + 2) s'"
        using True Inr pb by (subst x_loop.simps) simp
      moreover have "x_loop m1 W y (x + 2) s' = x_loop m2 W y (x + 2) s'"
        using "1.prems" by (intro "1.IH" [OF True Inr]) simp_all
      ultimately show ?thesis by simp
    qed
  qed
qed

lemma y_loop_agree:
  assumes "\<And>y' x'. 0 \<le> y' \<Longrightarrow> y' < H \<Longrightarrow> 0 \<le> x' \<Longrightarrow> x' < W \<Longrightarrow>
             Mat_at m1 y' x' = Mat_at m2 y' x'"
    "even W" "0 \<le> y"
  shows "y_loop m1 W H y s = y_loop m2 W H y s"
  using assms
proof (induction m1 W H y s rule: y_loop.induct)
  case (1 m1 W H y s)
  show ?case
  proof (cases "y < H")
    case False
    then show ?thesis by (simp add: y_loop.simps)
  next
    case True
    have xl: "x_loop m2 W y 0 s = x_loop m1 W y 0 s"
      using "1.prems" True by (intro x_loop_agree [symmetric]) simp_all
    show ?thesis
    proof (cases "x_loop m1 W y 0 s")
      case (Inl err)
      have "y_loop m1 W H y s = Inl err" using True Inl by (subst y_loop.simps) simp
      moreover have "y_loop m2 W H y s = Inl err" using True Inl xl by (subst y_loop.simps) simp
      ultimately show ?thesis by simp
    next
      case (Inr s')
      have "y_loop m1 W H y s = y_loop m1 W H (y + 1) s'"
        using True Inr by (subst y_loop.simps) simp
      moreover have "y_loop m2 W H y s = y_loop m2 W H (y + 1) s'"
        using True Inr xl by (subst y_loop.simps) simp
      moreover have "y_loop m1 W H (y + 1) s' = y_loop m2 W H (y + 1) s'"
        using "1.prems" by (intro "1.IH" [OF True Inr]) simp_all
      ultimately show ?thesis by simp
    qed
  qed
qed

lemma result_of_run:
  "result_of (GetRawYUYVData e) =
     then_do (int_mul (EvenWidth (cols (bgr e))) (rows (bgr e))) (\<lambda>wh.
     then_do (int_mul wh 2) (\<lambda>n.
       if n < 0 then Inl LengthError
       else then_do (y_loop (bgr e) (EvenWidth (cols (bgr e))) (rows (bgr e)) 0
                      \<lparr>buffer = replicate (nat n) 0, idx = 0, reads = []\<rparr>)
              (\<lambda>s. Inr (buffer s, EvenWidth (cols (bgr e)), rows (bgr e)))))"
  unfolding GetRawYUYVData_def run_unfold
  by (simp add: then_do_def result_of_def split: sum.splits)

lemma result_agree:
  assumes "EvenWidth (cols (bgr e1)) = EvenWidth (cols (bgr e2))" "rows (bgr e1) = rows (bgr e2)"
    "\<And>y x. 0 \<le> y \<Longrightarrow> y < rows (bgr e1) \<Longrightarrow> 0 \<le> x \<Longrightarrow> x < EvenWidth (cols (bgr e1)) \<Longrightarrow>
       Mat_at (bgr e1) y x = Mat_at (bgr e2) y x"
    "even (EvenWidth (cols (bgr e1)))"
  shows "result_of (GetRawYUYVData e1) = result_of (GetRawYUYVData e2)"
proof -
  have "y_loop (bgr e1) (EvenWidth (cols (bgr e1))) (rows (bgr e1)) 0 s =
        y_loop (bgr e2) (EvenWidth (cols (bgr e1))) (rows (bgr e1)) 0 s" for s
    using assms(3,4) by (intro y_loop_agree) simp_all
  then show ?thesis
    unfolding result_of_run assms(1) [symmetric] assms(2) [symmetric]
    by (simp cong: if_cong)
qed

lemma drop_last_column_result:
  assumes wf: "wf_Mat (bgr e1)" and odd: "odd (cols (bgr e1))"
    and e2: "bgr e2 = drop_last_column (bgr e1)"
  shows "result_of (GetRawYUYVData e1) = result_of (GetRawYUYVData e2)"
proof (rule result_agree)
  let ?m = "bgr e1"
  have W: "EvenWidth (cols ?m) = cols ?m - 1" using odd by (simp add: EvenWidth_def)
  show "EvenWidth (cols ?m) = EvenWidth (cols (bgr e2))"
    using odd by (simp add: e2 drop_last_column_def EvenWidth_def)
  show "rows ?m = rows (bgr e2)" by (simp add: e2 drop_last_column_def)
  show "even (EvenWidth (cols ?m))" using odd by (simp add: W)
  fix y x assume b: "0 \<le> y" "y < rows ?m" "0 \<le> x" "x < EvenWidth (cols ?m)"
  have len: "length (data ?m) = nat (rows ?m)"
    and row: "\<forall>i < length (data ?m). length (data ?m ! i) = nat (cols ?m)"
    using wf by (simp_all add: wf_Mat_def list_all_length)
  have yy: "nat y < length (data ?m)" using b(1,2) len by simp
  with row have l: "length (data ?m ! nat y) = nat (cols ?m)" by simp
  have xx: "nat x < length (data ?m ! nat y) - 1" using b(3,4) W l by simp
  have "Mat_at ?m y x = Inr (data ?m ! nat y ! nat x)"
    using wf b W by (intro Mat_at_wf) simp_all
  moreover have "Mat_at (bgr e2) y x = Inr (data ?m ! nat y ! nat x)"
    using b W yy xx by (simp add: Mat_at_def e2 drop_last_column_def nth_butlast)
  ultimately show "Mat_at ?m y x = Mat_at (bgr e2) y x" by simp
qed

lemma run_refs:
  assumes "GetRawYUYVData_run e = Inr (s, e')"
  shows "e' = e\<lparr>out_w := EvenWidth (cols (bgr e)), out_h := rows (bgr e)\<rparr>"
  using assms unfolding run_unfold then_do_def
  by (auto split: sum.splits if_splits)

lemma buffer_facts:
  assumes wf: "wf_Mat (bgr e)" and run: "GetRawYUYVData e = Inr (buf, e')"
  obtains s where "buf = buffer s" "run_post (bgr e) s" "size_fits (bgr e)"
    "e' = e\<lparr>out_w := EvenWidth (cols (bgr e)), out_h := rows (bgr e)\<rparr>"
proof -
  from GetRawYUYVData_Inr [OF run] obtain s
    where s: "GetRawYUYVData_run e = Inr (s, e')" "buf = buffer s" by blast
  from run_Inr [OF wf s(1)] s(2) that show ?thesis by blast
qed

lemma length_buffer_groups:
  assumes "wf_Mat m" "run_post m s"
  shows "length (buffer s) = 4 * nat (EvenWidth (cols m) div 2 * rows m)"
proof -
  let ?W = "EvenWidth (cols m)" and ?H = "rows m"
  have W: "even ?W" "0 \<le> ?W" and H: "0 \<le> ?H"
    using assms(1) by (simp_all add: wf_Mat_def EvenWidth_props)
  from W(1) obtain h where h: "?W = 2 * h" by (elim evenE)
  with W(2) H have "0 \<le> h * ?H" by simp
  then have "nat (?W * ?H * 2) = 4 * nat (?W div 2 * ?H)"
    unfolding h by (simp add: nat_mult_distrib)
  then show ?thesis using assms(2) by (simp add: run_post_def)
qed

lemma black_bytes:
  "pixel_Y (Vec3b 0 0 0) = 16" "pixel_U (Vec3b 0 0 0) = 128" "pixel_V (Vec3b 0 0 0) = 128"
  by (simp_all add: pixel_Y_def pixel_U_def pixel_V_def RGB2Y_def RGB2U_def RGB2V_def)

lemma example_wf: "wf_Mat example_image"
  by (simp add: wf_Mat_def example_image_def INT_MAX_def)

lemma example_run:
  "GetRawYUYVData_run \<lparr>bgr = example_image, out_w = 0, out_h = 0\<rparr> =
     Inr (\<lparr>buffer = [82, 165, 41, 175, 35, 125, 235, 130], idx = 8,
           reads = [(0, 0), (0, 1), (1, 0), (1, 1)]\<rparr>,
          \<lparr>bgr = example_image, out_w = 2, out_h = 2\<rparr>)"
  by code_simp

lemma example_result:
  "GetRawYUYVData \<lparr>bgr = example_image, out_w = 0, out_h = 0\<rparr> =
     Inr ([82, 165, 41, 175, 35, 125, 235, 130], \<lparr>bgr = example_image, out_w = 2, out_h = 2\<rparr>)"
  by (simp add: GetRawYUYVData_def example_run)

lemma wide_wf: "wf_Mat wide_image"
  by (simp add: wf_Mat_def wide_image_def INT_MAX_def)

lemma wide_fits: "EvenWidth (cols wide_image) * rows wide_image * 2 \<le> INT_MAX"
  by (simp add: wide_image_def EvenWidth_def INT_MAX_def)

lemma wide_result:
  "GetRawYUYVData \<lparr>bgr = wide_image, out_w = 0, out_h = 0\<rparr> =
     Inr ([82, 165, 41, 175, 144, 91, 235, 81, 35, 122, 61, 133, 86, 122, 112, 133],
          \<lparr>bgr = wide_image, out_w = 4, out_h = 2\<rparr>)"
  by code_simp

lemma flat_wf: "wf_Mat (flat_image c)"
  by (simp add: wf_Mat_def flat_image_def INT_MAX_def)

lemma flat_uniform: "uniform (flat_image c) c"
  by (simp add: uniform_def flat_image_def)

lemma nth_of_take4:
  assumes "take 4 (drop k buf) = [a, b, c, d]"
  shows "buf ! k = a" "buf ! (k + 1) = b" "buf ! (k + 2) = c" "buf ! (k + 3) = d"
proof -
  have l: "k + 4 \<le> length buf"
  proof (rule ccontr)
    assume "\<not> k + 4 \<le> length buf"
    then have "length (take 4 (drop k buf)) < 4" by simp
    with assms show False by simp
  qed
  have "take 4 (drop k buf) ! i = buf ! (k + i)" if "i < 4" for i
    using that l by simp
  from this [of 0] this [of 1] this [of 2] this [of 3]
  show "buf ! k = a" "buf ! (k + 1) = b" "buf ! (k + 2) = c" "buf ! (k + 3) = d"
    unfolding assms by simp_all
qed

lemma flat_result:
  "GetRawYUYVData \<lparr>bgr = flat_image c, out_w = 0, out_h = 0\<rparr> =
     Inr ([pixel_Y c, pixel_U c, pixel_Y c, pixel_V c, pixel_Y c, pixel_U c, pixel_Y c, pixel_V c,
           pixel_Y c, pixel_U c, pixel_Y c, pixel_V c, pixel_Y c, pixel_U c, pixel_Y c, pixel_V c],
          \<lparr>bgr = flat_image c, out_w = 4, out_h = 2\<rparr>)"
proof -
  have n: "(16::nat) = Suc (Suc (Suc (Suc (Suc (Suc (Suc (Suc (Suc (Suc (Suc (Suc (Suc (Suc (Suc (Suc 0)))))))))))))))"
    by simp
  show ?thesis
    by (simp add: GetRawYUYVData_def GetRawYUYVData_run_def Let_def flat_image_def int_mul_def
        INT_MAX_def INT_MIN_def y_loop.simps x_loop.simps pair_body_def Mat_at_def store_def
        avg_same n)
qed

lemma uniform_dvd:
  assumes "wf_Mat m" "run_post m s"
  shows "4 dvd length (buffer s)"
  using length_buffer_groups [OF assms] by simp

text \<open>The call returns a buffer exactly when the size of the buffer is representable.\<close>

lemma GetRawYUYVData_returns_iff:
  assumes "wf_Mat (bgr e)"
  shows "(\<exists>buf e'. GetRawYUYVData e = Inr (buf, e')) \<longleftrightarrow> size_fits (bgr e)"
proof
  assume "\<exists>buf e'. GetRawYUYVData e = Inr (buf, e')"
  then obtain buf e' where "GetRawYUYVData e = Inr (buf, e')" by blast
  from buffer_facts [OF assms this] show "size_fits (bgr e)" by blast
next
  assume "size_fits (bgr e)"
  from GetRawYUYVData_ok [OF assms this] show "\<exists>buf e'. GetRawYUYVData e = Inr (buf, e')"
    by metis
qed

text \<open>The narrowing wraps and does not saturate: for a pure red pixel the shifted chroma
  sum is \<open>- 38\<close>, the cast makes it 218 where a saturating conversion would give 0, and the
  stored byte is \<open>(218 + 128) mod 256 = 90\<close>.\<close>

lemma red_chroma_wraps:
  "drop_bit 8 (- 38 * 255 - 74 * 0 + 112 * 0 + 128 :: int) = - 38"
  "RGB2U 255 0 0 = 218 + 128"
  "pixel_U (Vec3b 0 0 255) = 90"
  by (simp_all add: pixel_U_def RGB2U_def drop_bit_eq_div)

section \<open>The claims\<close>

text \<open>Claim C1, amended. The bytes are laid out in row-major order, one row after the
  other and the pixel pairs of a row from left to right: for every image with width and
  height at least 0 whose output size \<open>EvenWidth * Height * 2\<close> is at most \<open>INT_MAX\<close>, the
  call returns a buffer of that size, and for every row \<open>y\<close> and every even column \<open>x\<close>
  below the effective width its four bytes at offset \<open>(y * EvenWidth + x) * 2\<close> are the luma
  of pixel \<open>(x, y)\<close>, the averaged U of the pair, the luma of pixel \<open>(x + 1, y)\<close> and the
  averaged V of the pair.\<close>

theorem yuyv_layout_row_major:
  assumes "wf_Mat (bgr e)" "EvenWidth (cols (bgr e)) * rows (bgr e) * 2 \<le> INT_MAX"
  shows "\<exists>buf e'. GetRawYUYVData e = Inr (buf, e') \<and>
           int (length buf) = EvenWidth (cols (bgr e)) * rows (bgr e) * 2 \<and>
           (\<forall>y x. 0 \<le> y \<longrightarrow> y < rows (bgr e) \<longrightarrow>
                  0 \<le> x \<longrightarrow> x < EvenWidth (cols (bgr e)) \<longrightarrow> even x \<longrightarrow>
              take 4 (drop (nat ((y * EvenWidth (cols (bgr e)) + x) * 2)) buf) =
                [pixel_Y (pixel (bgr e) y x),
                 U_avg (pixel (bgr e) y x) (pixel (bgr e) y (x + 1)),
                 pixel_Y (pixel (bgr e) y (x + 1)),
                 V_avg (pixel (bgr e) y x) (pixel (bgr e) y (x + 1))])"
proof -
  let ?e' = "e\<lparr>out_w := EvenWidth (cols (bgr e)), out_h := rows (bgr e)\<rparr>"
  have fits: "size_fits (bgr e)" using assms(2) by (simp add: size_fits_def)
  from GetRawYUYVData_ok [OF assms(1) fits] obtain s where s: "run_post (bgr e) s"
    "GetRawYUYVData e = Inr (buffer s, ?e')"
    by blast
  have "0 \<le> EvenWidth (cols (bgr e)) * rows (bgr e)"
    using assms(1) by (simp add: wf_Mat_def EvenWidth_props)
  then have L: "int (length (buffer s)) = EvenWidth (cols (bgr e)) * rows (bgr e) * 2"
    using s(1) by (simp add: run_post_def)
  have G: "\<forall>y x. 0 \<le> y \<longrightarrow> y < rows (bgr e) \<longrightarrow>
                  0 \<le> x \<longrightarrow> x < EvenWidth (cols (bgr e)) \<longrightarrow> even x \<longrightarrow>
              take 4 (drop (nat ((y * EvenWidth (cols (bgr e)) + x) * 2)) (buffer s)) =
                [pixel_Y (pixel (bgr e) y x),
                 U_avg (pixel (bgr e) y x) (pixel (bgr e) y (x + 1)),
                 pixel_Y (pixel (bgr e) y (x + 1)),
                 V_avg (pixel (bgr e) y x) (pixel (bgr e) y (x + 1))]"
  proof (intro allI impI)
    fix y x :: int
    assume b: "0 \<le> y" "y < rows (bgr e)" "0 \<le> x" "x < EvenWidth (cols (bgr e))" "even x"
    from run_post_layout(2) [OF assms(1) s(1) b]
    show "take 4 (drop (nat ((y * EvenWidth (cols (bgr e)) + x) * 2)) (buffer s)) =
                [pixel_Y (pixel (bgr e) y x),
                 U_avg (pixel (bgr e) y x) (pixel (bgr e) y (x + 1)),
                 pixel_Y (pixel (bgr e) y (x + 1)),
                 V_avg (pixel (bgr e) y x) (pixel (bgr e) y (x + 1))]"
      by (simp add: group_at_def macropixel_def)
  qed
  show ?thesis
    by (rule exI [of _ "buffer s"], rule exI [of _ ?e'], intro conjI, rule s(2), rule L, rule G)
qed

theorem yuyv_layout_row_major_witness:
  "wf_Mat wide_image \<and> EvenWidth (cols wide_image) * rows wide_image * 2 \<le> INT_MAX \<and>
   GetRawYUYVData \<lparr>bgr = wide_image, out_w = 0, out_h = 0\<rparr> =
     Inr ([82, 165, 41, 175, 144, 91, 235, 81, 35, 122, 61, 133, 86, 122, 112, 133],
          \<lparr>bgr = wide_image, out_w = 4, out_h = 2\<rparr>) \<and>
   take 4 (drop 12 [82, 165, 41, 175, 144, 91, 235, 81, 35, 122, 61, 133, 86, 122, 112, 133]) =
     [pixel_Y (Vec3b 70 80 90), U_avg (Vec3b 70 80 90) (Vec3b 100 110 120),
      pixel_Y (Vec3b 100 110 120), V_avg (Vec3b 70 80 90) (Vec3b 100 110 120)] \<and>
   take 4 (drop 4 [82, 165, 41, 175, 144, 91, 235, 81, 35, 122, 61, 133, 86, 122, 112, 133]) =
     [pixel_Y (Vec3b 0 255 0), U_avg (Vec3b 0 255 0) (Vec3b 255 255 255),
      pixel_Y (Vec3b 255 255 255), V_avg (Vec3b 0 255 0) (Vec3b 255 255 255)]"
proof -
  let ?e = "\<lparr>bgr = wide_image, out_w = 0, out_h = 0\<rparr>"
  let ?b = "[82, 165, 41, 175, 144, 91, 235, 81, 35, 122, 61, 133, 86, 122, 112, 133 :: u8]"
  have w: "wf_Mat (bgr ?e)" using wide_wf by simp
  have f: "EvenWidth (cols (bgr ?e)) * rows (bgr ?e) * 2 \<le> INT_MAX" using wide_fits by simp
  from yuyv_layout_row_major [OF w f] obtain buf e' where
    r: "GetRawYUYVData ?e = Inr (buf, e')" and
    g: "\<And>y x. 0 \<le> y \<Longrightarrow> y < rows (bgr ?e) \<Longrightarrow> 0 \<le> x \<Longrightarrow> x < EvenWidth (cols (bgr ?e)) \<Longrightarrow> even x \<Longrightarrow>
              take 4 (drop (nat ((y * EvenWidth (cols (bgr ?e)) + x) * 2)) buf) =
                [pixel_Y (pixel (bgr ?e) y x),
                 U_avg (pixel (bgr ?e) y x) (pixel (bgr ?e) y (x + 1)),
                 pixel_Y (pixel (bgr ?e) y (x + 1)),
                 V_avg (pixel (bgr ?e) y x) (pixel (bgr ?e) y (x + 1))]"
    by blast
  from r wide_result have buf: "buf = ?b" by simp
  have g1: "take 4 (drop 12 ?b) =
     [pixel_Y (Vec3b 70 80 90), U_avg (Vec3b 70 80 90) (Vec3b 100 110 120),
      pixel_Y (Vec3b 100 110 120), V_avg (Vec3b 70 80 90) (Vec3b 100 110 120)]"
    using g [of 1 2] unfolding buf by (simp add: wide_image_def EvenWidth_def pixel_def)
  have g2: "take 4 (drop 4 ?b) =
     [pixel_Y (Vec3b 0 255 0), U_avg (Vec3b 0 255 0) (Vec3b 255 255 255),
      pixel_Y (Vec3b 255 255 255), V_avg (Vec3b 0 255 0) (Vec3b 255 255 255)]"
    using g [of 0 2] unfolding buf by (simp add: wide_image_def EvenWidth_def pixel_def)
  show ?thesis
    by (intro conjI, rule wide_wf, rule wide_fits, rule wide_result, rule g1, rule g2)
qed

text \<open>Claim C1 as stated, for every image: a well-formed black image of 32769 by 32768
  pixels has the effective width 32768, and \<open>W * H * 2\<close> is \<open>2 ^ 31\<close>; the product
  overflows and no byte is laid out for row 0 and column 0.\<close>

theorem yuyv_layout_huge_odd_image_counterexample:
  "wf_Mat huge_odd_image \<and> (0::int) < rows huge_odd_image \<and>
   (0::int) < EvenWidth (cols huge_odd_image) \<and>
   GetRawYUYVData \<lparr>bgr = huge_odd_image, out_w = 0, out_h = 0\<rparr> = Inl SignedOverflow"
  by (simp add: wf_Mat_def list_all_iff GetRawYUYVData_def run_unfold huge_odd_image_def
      EvenWidth_def int_mul_def INT_MAX_def INT_MIN_def)

text \<open>Claim C2. For every pixel, the stored luma and chroma bytes are the result of exact
  integer arithmetic: the weighted sum plus 128 is shifted right arithmetically by 8 (floor
  division by 256), the result is narrowed to 8 bits modulo 256 without saturation, the
  offset 16 (for Y) or 128 (for U and V) is added afterwards, and the stored byte is that
  sum modulo 256.\<close>

theorem pixel_YUV_modular:
  "uint (pixel_Y p) = spec_Y (uint (ch2 p)) (uint (ch1 p)) (uint (ch0 p)) \<and>
   uint (pixel_U p) = spec_U (uint (ch2 p)) (uint (ch1 p)) (uint (ch0 p)) \<and>
   uint (pixel_V p) = spec_V (uint (ch2 p)) (uint (ch1 p)) (uint (ch0 p))"
  unfolding pixel_Y_def pixel_U_def pixel_V_def RGB2Y_def RGB2U_def RGB2V_def
    spec_Y_def spec_U_def spec_V_def spec_narrow8_def uint_u8 drop_bit_eq_div
  by simp

text \<open>Claim C3, amended. For every image with width and height at least 0 whose output
  size \<open>EvenWidth * Height * 2\<close> is at most \<open>INT_MAX\<close>, the call returns a buffer with
  exactly four bytes for each of the \<open>EvenWidth div 2 * Height\<close> horizontal pixel pairs, and
  for every pair the chroma bytes of its group are the floor of half the sum of the two
  pixels' own U values and of their own V values, while both luma values are kept.\<close>

theorem chroma_floor_average:
  assumes "wf_Mat (bgr e)" "EvenWidth (cols (bgr e)) * rows (bgr e) * 2 \<le> INT_MAX"
  shows "\<exists>buf e'. GetRawYUYVData e = Inr (buf, e') \<and>
           length buf = 4 * nat (EvenWidth (cols (bgr e)) div 2 * rows (bgr e)) \<and>
           (\<forall>y x. 0 \<le> y \<longrightarrow> y < rows (bgr e) \<longrightarrow>
                  0 \<le> x \<longrightarrow> x < EvenWidth (cols (bgr e)) \<longrightarrow> even x \<longrightarrow>
              (let off = nat ((y * EvenWidth (cols (bgr e)) + x) * 2);
                   p0 = pixel (bgr e) y x;
                   p1 = pixel (bgr e) y (x + 1)
               in off + 4 \<le> length buf \<and>
                  buf ! off = pixel_Y p0 \<and>
                  uint (buf ! (off + 1)) = (uint (pixel_U p0) + uint (pixel_U p1)) div 2 \<and>
                  buf ! (off + 2) = pixel_Y p1 \<and>
                  uint (buf ! (off + 3)) = (uint (pixel_V p0) + uint (pixel_V p1)) div 2))"
proof -
  let ?e' = "e\<lparr>out_w := EvenWidth (cols (bgr e)), out_h := rows (bgr e)\<rparr>"
  have fits: "size_fits (bgr e)" using assms(2) by (simp add: size_fits_def)
  from GetRawYUYVData_ok [OF assms(1) fits] obtain s where s: "run_post (bgr e) s"
    "GetRawYUYVData e = Inr (buffer s, ?e')"
    by blast
  note L = length_buffer_groups [OF assms(1) s(1)]
  have G: "\<forall>y x. 0 \<le> y \<longrightarrow> y < rows (bgr e) \<longrightarrow>
                  0 \<le> x \<longrightarrow> x < EvenWidth (cols (bgr e)) \<longrightarrow> even x \<longrightarrow>
              (let off = nat ((y * EvenWidth (cols (bgr e)) + x) * 2);
                   p0 = pixel (bgr e) y x;
                   p1 = pixel (bgr e) y (x + 1)
               in off + 4 \<le> length (buffer s) \<and>
                  buffer s ! off = pixel_Y p0 \<and>
                  uint (buffer s ! (off + 1)) = (uint (pixel_U p0) + uint (pixel_U p1)) div 2 \<and>
                  buffer s ! (off + 2) = pixel_Y p1 \<and>
                  uint (buffer s ! (off + 3)) = (uint (pixel_V p0) + uint (pixel_V p1)) div 2)"
  proof (intro allI impI)
    fix y x :: int
    assume b: "0 \<le> y" "y < rows (bgr e)" "0 \<le> x" "x < EvenWidth (cols (bgr e))" "even x"
    have t: "take 4 (drop (nat ((y * EvenWidth (cols (bgr e)) + x) * 2)) (buffer s)) =
          [pixel_Y (pixel (bgr e) y x),
           U_avg (pixel (bgr e) y x) (pixel (bgr e) y (x + 1)),
           pixel_Y (pixel (bgr e) y (x + 1)),
           V_avg (pixel (bgr e) y x) (pixel (bgr e) y (x + 1))]"
      using run_post_layout(2) [OF assms(1) s(1) b]
      by (simp add: group_at_def macropixel_def)
    from nth_of_take4 [OF t] run_post_layout(1) [OF assms(1) s(1) b]
    show "let off = nat ((y * EvenWidth (cols (bgr e)) + x) * 2);
              p0 = pixel (bgr e) y x;
              p1 = pixel (bgr e) y (x + 1)
          in off + 4 \<le> length (buffer s) \<and>
             buffer s ! off = pixel_Y p0 \<and>
             uint (buffer s ! (off + 1)) = (uint (pixel_U p0) + uint (pixel_U p1)) div 2 \<and>
             buffer s ! (off + 2) = pixel_Y p1 \<and>
             uint (buffer s ! (off + 3)) = (uint (pixel_V p0) + uint (pixel_V p1)) div 2"
      by (simp add: Let_def U_avg_def V_avg_def uint_avg)
  qed
  show ?thesis
    by (rule exI [of _ "buffer s"], rule exI [of _ ?e'], intro conjI, rule s(2), rule L, rule G)
qed

theorem chroma_floor_average_witness:
  "wf_Mat wide_image \<and> EvenWidth (cols wide_image) * rows wide_image * 2 \<le> INT_MAX \<and>
   GetRawYUYVData \<lparr>bgr = wide_image, out_w = 0, out_h = 0\<rparr> =
     Inr ([82, 165, 41, 175, 144, 91, 235, 81, 35, 122, 61, 133, 86, 122, 112, 133],
          \<lparr>bgr = wide_image, out_w = 4, out_h = 2\<rparr>) \<and>
   length [82, 165, 41, 175, 144, 91, 235, 81, 35, 122, 61, 133, 86, 122, 112, 133 :: u8] =
     4 * nat (4 div 2 * 2) \<and>
   uint (pixel_U (Vec3b 0 255 0)) = 54 \<and> uint (pixel_U (Vec3b 255 255 255)) = 128 \<and>
   uint ([82, 165, 41, 175, 144, 91, 235, 81, 35, 122, 61, 133, 86, 122, 112, 133 :: u8] ! 5) =
     (54 + 128) div 2 \<and>
   uint (pixel_V (Vec3b 0 255 0)) = 34 \<and> uint (pixel_V (Vec3b 255 255 255)) = 128 \<and>
   uint ([82, 165, 41, 175, 144, 91, 235, 81, 35, 122, 61, 133, 86, 122, 112, 133 :: u8] ! 7) =
     (34 + 128) div 2 \<and>
   [82, 165, 41, 175, 144, 91, 235, 81, 35, 122, 61, 133, 86, 122, 112, 133 :: u8] ! 4 =
     pixel_Y (Vec3b 0 255 0) \<and>
   [82, 165, 41, 175, 144, 91, 235, 81, 35, 122, 61, 133, 86, 122, 112, 133 :: u8] ! 6 =
     pixel_Y (Vec3b 255 255 255)"
proof -
  let ?e = "\<lparr>bgr = wide_image, out_w = 0, out_h = 0\<rparr>"
  let ?b = "[82, 165, 41, 175, 144, 91, 235, 81, 35, 122, 61, 133, 86, 122, 112, 133 :: u8]"
  have w: "wf_Mat (bgr ?e)" using wide_wf by simp
  have f: "EvenWidth (cols (bgr ?e)) * rows (bgr ?e) * 2 \<le> INT_MAX" using wide_fits by simp
  from chroma_floor_average [OF w f] obtain buf e' where
    r: "GetRawYUYVData ?e = Inr (buf, e')" and
    l: "length buf = 4 * nat (EvenWidth (cols (bgr ?e)) div 2 * rows (bgr ?e))" and
    g: "\<And>y x. 0 \<le> y \<Longrightarrow> y < rows (bgr ?e) \<Longrightarrow> 0 \<le> x \<Longrightarrow> x < EvenWidth (cols (bgr ?e)) \<Longrightarrow> even x \<Longrightarrow>
              (let off = nat ((y * EvenWidth (cols (bgr ?e)) + x) * 2);
                   p0 = pixel (bgr ?e) y x;
                   p1 = pixel (bgr ?e) y (x + 1)
               in off + 4 \<le> length buf \<and>
                  buf ! off = pixel_Y p0 \<and>
                  uint (buf ! (off + 1)) = (uint (pixel_U p0) + uint (pixel_U p1)) div 2 \<and>
                  buf ! (off + 2) = pixel_Y p1 \<and>
                  uint (buf ! (off + 3)) = (uint (pixel_V p0) + uint (pixel_V p1)) div 2)"
    by blast
  from r wide_result have buf: "buf = ?b" by simp
  have v: "uint (pixel_U (Vec3b 0 255 0)) = 54" "uint (pixel_U (Vec3b 255 255 255)) = 128"
    "uint (pixel_V (Vec3b 0 255 0)) = 34" "uint (pixel_V (Vec3b 255 255 255)) = 128"
    by (simp_all add: pixel_U_def pixel_V_def RGB2U_def RGB2V_def drop_bit_eq_div)
  have l': "length ?b = 4 * nat (4 div 2 * 2)"
    using l unfolding buf by (simp add: wide_image_def EvenWidth_def)
  have g': "?b ! 4 = pixel_Y (Vec3b 0 255 0) \<and>
            uint (?b ! 5) = (54 + 128) div 2 \<and>
            ?b ! 6 = pixel_Y (Vec3b 255 255 255) \<and>
            uint (?b ! 7) = (34 + 128) div 2"
    using g [of 0 2] v unfolding buf
    by (simp add: wide_image_def EvenWidth_def pixel_def Let_def)
  from g' have g4: "?b ! 4 = pixel_Y (Vec3b 0 255 0)"
    and g5: "uint (?b ! 5) = (54 + 128) div 2"
    and g6: "?b ! 6 = pixel_Y (Vec3b 255 255 255)"
    and g7: "uint (?b ! 7) = (34 + 128) div 2"
    by blast+
  show ?thesis
    by (intro conjI, rule wide_wf, rule wide_fits, rule wide_result, rule l', rule v(1),
        rule v(2), rule g5, rule v(3), rule v(4), rule g7, rule g4, rule g6)
qed

text \<open>Claim C3 as stated, for every pixel pair: a well-formed black image of 65536 by
  16384 pixels has pixel pairs, and \<open>W * H * 2\<close> is \<open>2 ^ 31\<close>; the product overflows and no
  chroma byte is emitted for any of them.\<close>

theorem chroma_average_huge_wide_image_counterexample:
  "wf_Mat huge_wide_image \<and> (0::int) < rows huge_wide_image \<and>
   (1::int) < EvenWidth (cols huge_wide_image) \<and>
   GetRawYUYVData \<lparr>bgr = huge_wide_image, out_w = 0, out_h = 0\<rparr> = Inl SignedOverflow"
  by (simp add: wf_Mat_def list_all_iff GetRawYUYVData_def run_unfold huge_wide_image_def
      EvenWidth_def int_mul_def INT_MAX_def INT_MIN_def)

text \<open>Claim C4, amended. For every image with width and height at least 0 whose output size
  \<open>EvenWidth * Height * 2\<close> is at most \<open>INT_MAX\<close>, the call returns a buffer; for an even
  width its length is \<open>Width * Height * 2\<close>, for an odd width the returned width is
  \<open>Width - 1\<close> and the length is \<open>(Width - 1) * Height * 2\<close>, and the returned height is the
  height of the image.\<close>

theorem buffer_length_when_size_fits:
  assumes "wf_Mat (bgr e)" "EvenWidth (cols (bgr e)) * rows (bgr e) * 2 \<le> INT_MAX"
  shows "\<exists>buf e'. GetRawYUYVData e = Inr (buf, e') \<and> out_h e' = rows (bgr e) \<and>
           (even (cols (bgr e)) \<longrightarrow>
              int (length buf) = cols (bgr e) * rows (bgr e) * 2 \<and> out_w e' = cols (bgr e)) \<and>
           (odd (cols (bgr e)) \<longrightarrow>
              out_w e' = cols (bgr e) - 1 \<and>
              int (length buf) = (cols (bgr e) - 1) * rows (bgr e) * 2)"
proof -
  have fits: "size_fits (bgr e)" using assms(2) by (simp add: size_fits_def)
  from GetRawYUYVData_ok [OF assms(1) fits] obtain s where s: "run_post (bgr e) s"
    "GetRawYUYVData e =
       Inr (buffer s, e\<lparr>out_w := EvenWidth (cols (bgr e)), out_h := rows (bgr e)\<rparr>)"
    by blast
  have "0 \<le> EvenWidth (cols (bgr e)) * rows (bgr e)"
    using assms(1) by (simp add: wf_Mat_def EvenWidth_props)
  then have "int (length (buffer s)) = EvenWidth (cols (bgr e)) * rows (bgr e) * 2"
    using s(1) by (simp add: run_post_def)
  then show ?thesis
    unfolding s(2) by (simp add: EvenWidth_def)
qed

theorem buffer_length_when_size_fits_witness:
  "wf_Mat example_image \<and> EvenWidth (cols example_image) * rows example_image * 2 \<le> INT_MAX \<and>
   odd (cols example_image) \<and>
   GetRawYUYVData \<lparr>bgr = example_image, out_w = 0, out_h = 0\<rparr> =
     Inr ([82, 165, 41, 175, 35, 125, 235, 130], \<lparr>bgr = example_image, out_w = 2, out_h = 2\<rparr>) \<and>
   int (length [82, 165, 41, 175, 35, 125, 235, 130 :: u8]) = (cols example_image - 1) * rows example_image * 2"
proof -
  have w: "wf_Mat (bgr \<lparr>bgr = example_image, out_w = 0, out_h = 0\<rparr>)"
    using example_wf by simp
  have f: "EvenWidth (cols (bgr \<lparr>bgr = example_image, out_w = 0, out_h = 0\<rparr>)) *
           rows (bgr \<lparr>bgr = example_image, out_w = 0, out_h = 0\<rparr>) * 2 \<le> INT_MAX"
    by (simp add: example_image_def EvenWidth_def INT_MAX_def)
  from buffer_length_when_size_fits [OF w f] f example_wf example_result
  show ?thesis
    by (simp add: example_image_def)
qed

text \<open>Claim C4 as stated, for every width and height: a well-formed black image of
  32768 by 32768 pixels has an even width, and \<open>W * H * 2\<close> is \<open>2 ^ 31\<close>, one more than
  \<open>INT_MAX\<close>; the product overflows and no buffer of that length is returned.\<close>

theorem buffer_length_huge_image_counterexample:
  "wf_Mat huge_image \<and> even (cols huge_image) \<and> 0 \<le> cols huge_image \<and> 0 \<le> rows huge_image \<and>
   GetRawYUYVData \<lparr>bgr = huge_image, out_w = 0, out_h = 0\<rparr> = Inl SignedOverflow"
  by (simp add: wf_Mat_def list_all_iff GetRawYUYVData_def run_unfold huge_image_def
      EvenWidth_def int_mul_def INT_MAX_def INT_MIN_def)

text \<open>Claim C5. For every image with width and height at least 0, no pixel read of the
  encoder falls outside the image: every coordinate \<open>(y, x)\<close> handed to \<open>bgr.at\<close> has
  \<open>0 \<le> y < Height\<close> and \<open>0 \<le> x < Width\<close>, and for an odd width the last column is never
  read. The loops carry no check of their own; the bounds follow from the truncated
  width.\<close>

theorem reads_inside_image:
  assumes "wf_Mat (bgr e)"
  shows "GetRawYUYVData_run e \<noteq> Inl ReadOutOfBounds \<and>
         (\<forall>s e'. GetRawYUYVData_run e = Inr (s, e') \<longrightarrow>
            (\<forall>(y, x) \<in> set (reads s).
               0 \<le> y \<and> y < rows (bgr e) \<and> 0 \<le> x \<and> x < cols (bgr e) \<and>
               (odd (cols (bgr e)) \<longrightarrow> x < cols (bgr e) - 1)))"
proof (intro conjI allI impI)
  show "GetRawYUYVData_run e \<noteq> Inl ReadOutOfBounds"
  proof (cases "size_fits (bgr e)")
    case True
    from run_ok [OF assms True] show ?thesis by auto
  next
    case False
    from run_overflow [OF assms False] show ?thesis by simp
  qed
next
  fix s e' assume run: "GetRawYUYVData_run e = Inr (s, e')"
  have W: "EvenWidth (cols (bgr e)) \<le> cols (bgr e)"
    "odd (cols (bgr e)) \<Longrightarrow> EvenWidth (cols (bgr e)) = cols (bgr e) - 1"
    by (simp_all add: EvenWidth_def)
  from run_Inr(2) [OF assms run]
  have "set (reads s) \<subseteq> {0 ..< rows (bgr e)} \<times> {0 ..< EvenWidth (cols (bgr e))}"
    by (simp add: run_post_def)
  with W show "\<forall>(y, x) \<in> set (reads s).
               0 \<le> y \<and> y < rows (bgr e) \<and> 0 \<le> x \<and> x < cols (bgr e) \<and>
               (odd (cols (bgr e)) \<longrightarrow> x < cols (bgr e) - 1)"
    by fastforce
qed

theorem reads_inside_image_witness:
  "wf_Mat example_image \<and> odd (cols example_image) \<and>
   GetRawYUYVData_run \<lparr>bgr = example_image, out_w = 0, out_h = 0\<rparr> =
     Inr (\<lparr>buffer = [82, 165, 41, 175, 35, 125, 235, 130], idx = 8,
           reads = [(0, 0), (0, 1), (1, 0), (1, 1)]\<rparr>,
          \<lparr>bgr = example_image, out_w = 2, out_h = 2\<rparr>) \<and>
   list_all (\<lambda>(y, x). y < rows example_image \<and> x < cols example_image - 1)
     [(0, 0), (0, 1), (1, 0), (1, 1)]"
proof -
  have w: "wf_Mat (bgr \<lparr>bgr = example_image, out_w = 0, out_h = 0\<rparr>)"
    using example_wf by simp
  from reads_inside_image [OF w] example_wf example_run
  show ?thesis
    by (simp add: example_image_def)
qed

text \<open>Claim C6. For every height, an image of width 0 or 1 gives the effective width 0 and
  an empty buffer.\<close>

theorem degenerate_width_empty:
  assumes "wf_Mat (bgr e)" "cols (bgr e) = 0 \<or> cols (bgr e) = 1"
  shows "GetRawYUYVData e = Inr ([], e\<lparr>out_w := 0, out_h := rows (bgr e)\<rparr>)"
proof -
  have W: "EvenWidth (cols (bgr e)) = 0" using assms(2) by (auto simp add: EvenWidth_def)
  then have fits: "size_fits (bgr e)" by (simp add: size_fits_def INT_MAX_def)
  from GetRawYUYVData_ok [OF assms(1) fits] obtain s where s: "run_post (bgr e) s"
    "GetRawYUYVData e =
       Inr (buffer s, e\<lparr>out_w := EvenWidth (cols (bgr e)), out_h := rows (bgr e)\<rparr>)"
    by blast
  from s(1) W have "buffer s = []" by (simp add: run_post_def)
  with s(2) W show ?thesis by simp
qed

theorem degenerate_width_empty_witness:
  "wf_Mat column_image \<and> cols column_image = 1 \<and> rows column_image = 3 \<and>
   GetRawYUYVData \<lparr>bgr = column_image, out_w = 5, out_h = 5\<rparr> =
     Inr ([], \<lparr>bgr = column_image, out_w = 0, out_h = 3\<rparr>)"
proof -
  have w: "wf_Mat (bgr \<lparr>bgr = column_image, out_w = 5, out_h = 5\<rparr>)"
    by (simp add: wf_Mat_def column_image_def INT_MAX_def)
  have c: "cols (bgr \<lparr>bgr = column_image, out_w = 5, out_h = 5\<rparr>) = 0 \<or>
           cols (bgr \<lparr>bgr = column_image, out_w = 5, out_h = 5\<rparr>) = 1"
    by (simp add: column_image_def)
  from degenerate_width_empty [OF w c] w
  show ?thesis by (simp add: column_image_def)
qed

text \<open>Claim C7. For an image whose pixels are all \<open>(0, 0, 0)\<close>, the returned buffer
  consists of four-byte groups and every group is \<open>16, 128, 16, 128\<close>.\<close>

theorem black_image_groups:
  assumes "wf_Mat (bgr e)" "GetRawYUYVData e = Inr (buf, e')" "uniform (bgr e) (Vec3b 0 0 0)"
  shows "4 dvd length buf \<and> (\<forall>g < length buf div 4. nth_group buf g = [16, 128, 16, 128])"
proof -
  from buffer_facts [OF assms(1,2)] obtain s
    where s: "buf = buffer s" "run_post (bgr e) s" by blast
  have "nth_group buf g = [16, 128, 16, 128]" if "g < length buf div 4" for g
    using uniform_groups [OF assms(1) s(2) assms(3), of g] that
    by (simp add: s(1) black_bytes)
  then show ?thesis using uniform_dvd [OF assms(1) s(2)] by (simp add: s(1))
qed

theorem black_image_groups_witness:
  "wf_Mat (flat_image (Vec3b 0 0 0)) \<and> uniform (flat_image (Vec3b 0 0 0)) (Vec3b 0 0 0) \<and>
   GetRawYUYVData \<lparr>bgr = flat_image (Vec3b 0 0 0), out_w = 0, out_h = 0\<rparr> =
     Inr ([16, 128, 16, 128, 16, 128, 16, 128, 16, 128, 16, 128, 16, 128, 16, 128],
          \<lparr>bgr = flat_image (Vec3b 0 0 0), out_w = 4, out_h = 2\<rparr>) \<and>
   nth_group [16, 128, 16, 128, 16, 128, 16, 128, 16, 128, 16, 128, 16, 128, 16, 128] 0 =
     [16, 128, 16, 128] \<and>
   nth_group [16, 128, 16, 128, 16, 128, 16, 128, 16, 128, 16, 128, 16, 128, 16, 128] 3 =
     [16, 128, 16, 128]"
proof -
  have w: "wf_Mat (bgr \<lparr>bgr = flat_image (Vec3b 0 0 0), out_w = 0, out_h = 0\<rparr>)"
    using flat_wf by simp
  have u: "uniform (bgr \<lparr>bgr = flat_image (Vec3b 0 0 0), out_w = 0, out_h = 0\<rparr>) (Vec3b 0 0 0)"
    using flat_uniform by simp
  have r: "GetRawYUYVData \<lparr>bgr = flat_image (Vec3b 0 0 0), out_w = 0, out_h = 0\<rparr> =
     Inr ([16, 128, 16, 128, 16, 128, 16, 128, 16, 128, 16, 128, 16, 128, 16, 128],
          \<lparr>bgr = flat_image (Vec3b 0 0 0), out_w = 4, out_h = 2\<rparr>)"
    using flat_result [of "Vec3b 0 0 0"] by (simp add: black_bytes)
  have l: "length [16, 128, 16, 128, 16, 128, 16, 128, 16, 128, 16, 128, 16, 128, 16, 128 :: u8] div 4 = 4"
    by simp
  from black_image_groups [OF w r u]
  have a: "\<forall>g < 4. nth_group [16, 128, 16, 128, 16, 128, 16, 128, 16, 128, 16, 128, 16, 128, 16, 128] g =
      [16, 128, 16, 128]"
    unfolding l by (rule conjunct2)
  have "(0::nat) < 4" "(3::nat) < 4" by simp_all
  with a flat_wf flat_uniform r show ?thesis by blast
qed

text \<open>Claim C8. For an image of one colour, the returned buffer consists of four-byte
  groups, any two groups are equal, and in every group the two luma bytes are equal.\<close>

theorem uniform_image_groups:
  assumes "wf_Mat (bgr e)" "GetRawYUYVData e = Inr (buf, e')" "uniform (bgr e) c"
  shows "4 dvd length buf \<and>
         (\<forall>g < length buf div 4. \<forall>g' < length buf div 4.
            nth_group buf g = nth_group buf g' \<and> nth_group buf g ! 0 = nth_group buf g ! 2)"
proof -
  from buffer_facts [OF assms(1,2)] obtain s
    where s: "buf = buffer s" "run_post (bgr e) s" by blast
  have "nth_group buf g = [pixel_Y c, pixel_U c, pixel_Y c, pixel_V c]"
    if "g < length buf div 4" for g
    using uniform_groups [OF assms(1) s(2) assms(3), of g] that by (simp add: s(1))
  then show ?thesis using uniform_dvd [OF assms(1) s(2)] by (simp add: s(1))
qed

theorem uniform_image_groups_witness:
  "wf_Mat (flat_image (Vec3b 10 20 30)) \<and> uniform (flat_image (Vec3b 10 20 30)) (Vec3b 10 20 30) \<and>
   GetRawYUYVData \<lparr>bgr = flat_image (Vec3b 10 20 30), out_w = 0, out_h = 0\<rparr> =
     Inr ([35, 122, 35, 133, 35, 122, 35, 133, 35, 122, 35, 133, 35, 122, 35, 133],
          \<lparr>bgr = flat_image (Vec3b 10 20 30), out_w = 4, out_h = 2\<rparr>) \<and>
   nth_group [35, 122, 35, 133, 35, 122, 35, 133, 35, 122, 35, 133, 35, 122, 35, 133] 0 =
   nth_group [35, 122, 35, 133, 35, 122, 35, 133, 35, 122, 35, 133, 35, 122, 35, 133] 3 \<and>
   nth_group [35, 122, 35, 133, 35, 122, 35, 133, 35, 122, 35, 133, 35, 122, 35, 133] 0 ! 0 =
   nth_group [35, 122, 35, 133, 35, 122, 35, 133, 35, 122, 35, 133, 35, 122, 35, 133] 0 ! 2"
proof -
  have w: "wf_Mat (bgr \<lparr>bgr = flat_image (Vec3b 10 20 30), out_w = 0, out_h = 0\<rparr>)"
    using flat_wf by simp
  have u: "uniform (bgr \<lparr>bgr = flat_image (Vec3b 10 20 30), out_w = 0, out_h = 0\<rparr>) (Vec3b 10 20 30)"
    using flat_uniform by simp
  have b: "pixel_Y (Vec3b 10 20 30) = 35" "pixel_U (Vec3b 10 20 30) = 122"
    "pixel_V (Vec3b 10 20 30) = 133"
    by (simp_all add: pixel_Y_def pixel_U_def pixel_V_def RGB2Y_def RGB2U_def RGB2V_def
        drop_bit_eq_div)
  have r: "GetRawYUYVData \<lparr>bgr = flat_image (Vec3b 10 20 30), out_w = 0, out_h = 0\<rparr> =
     Inr ([35, 122, 35, 133, 35, 122, 35, 133, 35, 122, 35, 133, 35, 122, 35, 133],
          \<lparr>bgr = flat_image (Vec3b 10 20 30), out_w = 4, out_h = 2\<rparr>)"
    using flat_result [of "Vec3b 10 20 30"] by (simp add: b)
  have l: "length [35, 122, 35, 133, 35, 122, 35, 133, 35, 122, 35, 133, 35, 122, 35, 133 :: u8] div 4 = 4"
    by simp
  from uniform_image_groups [OF w r u]
  have a: "\<forall>g < 4. \<forall>g' < 4.
      nth_group [35, 122, 35, 133, 35, 122, 35, 133, 35, 122, 35, 133, 35, 122, 35, 133] g =
      nth_group [35, 122, 35, 133, 35, 122, 35, 133, 35, 122, 35, 133, 35, 122, 35, 133] g' \<and>
      nth_group [35, 122, 35, 133, 35, 122, 35, 133, 35, 122, 35, 133, 35, 122, 35, 133] g ! 0 =
      nth_group [35, 122, 35, 133, 35, 122, 35, 133, 35, 122, 35, 133, 35, 122, 35, 133] g ! 2"
    unfolding l by (rule conjunct2)
  have "(0::nat) < 4" "(3::nat) < 4" by simp_all
  with a flat_wf flat_uniform r show ?thesis by blast
qed

text \<open>Claim C9. The result of a call is a function of the image alone: two calls on the same
  image return the same buffer, width and height, whatever the two output integers held
  before, and the image is the same after the call as before.\<close>

theorem GetRawYUYVData_pure:
  assumes "bgr e1 = bgr e2"
  shows "result_of (GetRawYUYVData e1) = result_of (GetRawYUYVData e2) \<and>
         (\<forall>buf e'. GetRawYUYVData e1 = Inr (buf, e') \<longrightarrow> bgr e' = bgr e1)"
proof (intro conjI allI impI)
  show "result_of (GetRawYUYVData e1) = result_of (GetRawYUYVData e2)"
    unfolding result_of_run assms ..
next
  fix buf e' assume "GetRawYUYVData e1 = Inr (buf, e')"
  from GetRawYUYVData_Inr [OF this] obtain s
    where "GetRawYUYVData_run e1 = Inr (s, e')" by blast
  from run_refs [OF this] show "bgr e' = bgr e1" by simp
qed

theorem GetRawYUYVData_pure_witness:
  "result_of (GetRawYUYVData \<lparr>bgr = example_image, out_w = 0, out_h = 0\<rparr>) =
   result_of (GetRawYUYVData \<lparr>bgr = example_image, out_w = 7, out_h = - 3\<rparr>) \<and>
   GetRawYUYVData \<lparr>bgr = example_image, out_w = 0, out_h = 0\<rparr> =
     Inr ([82, 165, 41, 175, 35, 125, 235, 130], \<lparr>bgr = example_image, out_w = 2, out_h = 2\<rparr>) \<and>
   bgr \<lparr>bgr = example_image, out_w = 2, out_h = 2\<rparr> = example_image"
proof -
  have h: "bgr \<lparr>bgr = example_image, out_w = 0, out_h = 0\<rparr> =
           bgr \<lparr>bgr = example_image, out_w = 7, out_h = - 3\<rparr>"
    by simp
  from GetRawYUYVData_pure [OF h] example_result
  show ?thesis by simp
qed

text \<open>Claim C10. For every image of odd width, the result (buffer, width and height, or the
  failure) is the result on the image without its last column; and two images of the same
  odd width and the same height that agree on all columns but the last have the same
  result.\<close>

theorem last_column_no_influence:
  assumes "wf_Mat (bgr e1)" "odd (cols (bgr e1))"
  shows "(bgr e2 = drop_last_column (bgr e1) \<longrightarrow>
            result_of (GetRawYUYVData e1) = result_of (GetRawYUYVData e2)) \<and>
         (wf_Mat (bgr e3) \<and> agree_but_last (bgr e1) (bgr e3) \<longrightarrow>
            result_of (GetRawYUYVData e1) = result_of (GetRawYUYVData e3))"
proof (intro conjI impI)
  assume "bgr e2 = drop_last_column (bgr e1)"
  with assms show "result_of (GetRawYUYVData e1) = result_of (GetRawYUYVData e2)"
    by (rule drop_last_column_result)
next
  assume a: "wf_Mat (bgr e3) \<and> agree_but_last (bgr e1) (bgr e3)"
  let ?e = "\<lparr>bgr = drop_last_column (bgr e1), out_w = 0, out_h = 0\<rparr>"
  have same: "drop_last_column (bgr e1) = drop_last_column (bgr e3)"
    using a by (cases "bgr e1", cases "bgr e3") (simp add: agree_but_last_def drop_last_column_def)
  have odd3: "odd (cols (bgr e3))" using a assms(2) by (simp add: agree_but_last_def)
  have "result_of (GetRawYUYVData e1) = result_of (GetRawYUYVData ?e)"
    using assms by (rule drop_last_column_result) simp
  also have "\<dots> = result_of (GetRawYUYVData e3)"
    using a odd3 by (intro drop_last_column_result [symmetric]) (simp_all add: same)
  finally show "result_of (GetRawYUYVData e1) = result_of (GetRawYUYVData e3)" .
qed

theorem last_column_no_influence_witness:
  "wf_Mat example_image \<and> odd (cols example_image) \<and>
   wf_Mat example_image' \<and> agree_but_last example_image example_image' \<and>
   example_image \<noteq> example_image' \<and>
   result_of (GetRawYUYVData \<lparr>bgr = example_image, out_w = 0, out_h = 0\<rparr>) =
     result_of (GetRawYUYVData \<lparr>bgr = drop_last_column example_image, out_w = 0, out_h = 0\<rparr>) \<and>
   result_of (GetRawYUYVData \<lparr>bgr = example_image, out_w = 0, out_h = 0\<rparr>) =
     result_of (GetRawYUYVData \<lparr>bgr = example_image', out_w = 0, out_h = 0\<rparr>) \<and>
   result_of (GetRawYUYVData \<lparr>bgr = example_image, out_w = 0, out_h = 0\<rparr>) =
     Inr ([82, 165, 41, 175, 35, 125, 235, 130], 2, 2)"
proof -
  have w: "wf_Mat (bgr \<lparr>bgr = example_image, out_w = 0, out_h = 0\<rparr>)"
    using example_wf by simp
  have o: "odd (cols (bgr \<lparr>bgr = example_image, out_w = 0, out_h = 0\<rparr>))"
    by (simp add: example_image_def)
  have d: "bgr \<lparr>bgr = drop_last_column example_image, out_w = 0, out_h = 0\<rparr> =
           drop_last_column (bgr \<lparr>bgr = example_image, out_w = 0, out_h = 0\<rparr>)"
    by simp
  have w': "wf_Mat example_image'"
    by (simp add: wf_Mat_def example_image'_def INT_MAX_def)
  have a: "agree_but_last example_image example_image'"
    by (simp add: agree_but_last_def example_image_def example_image'_def)
  have ne: "example_image \<noteq> example_image'"
    by (simp add: example_image_def example_image'_def)
  have a': "wf_Mat (bgr \<lparr>bgr = example_image', out_w = 0, out_h = 0\<rparr>) \<and>
            agree_but_last (bgr \<lparr>bgr = example_image, out_w = 0, out_h = 0\<rparr>)
              (bgr \<lparr>bgr = example_image', out_w = 0, out_h = 0\<rparr>)"
    using w' a by simp
  have r: "result_of (GetRawYUYVData \<lparr>bgr = example_image, out_w = 0, out_h = 0\<rparr>) =
     Inr ([82, 165, 41, 175, 35, 125, 235, 130], 2, 2)"
    by (simp add: example_result result_of_def)
  from last_column_no_influence [OF w o,
      of "\<lparr>bgr = drop_last_column example_image, out_w = 0, out_h = 0\<rparr>"
         "\<lparr>bgr = example_image', out_w = 0, out_h = 0\<rparr>"]
  have "result_of (GetRawYUYVData \<lparr>bgr = example_image, out_w = 0, out_h = 0\<rparr>) =
          result_of (GetRawYUYVData \<lparr>bgr = drop_last_column example_image, out_w = 0, out_h = 0\<rparr>)"
    and "result_of (GetRawYUYVData \<lparr>bgr = example_image, out_w = 0, out_h = 0\<rparr>) =
          result_of (GetRawYUYVData \<lparr>bgr = example_image', out_w = 0, out_h = 0\<rparr>)"
    using d a' by blast+
  with example_wf o w' a ne r show ?thesis
    by (intro conjI) simp_all
qed

end
